theory Spec2Isabelle
  imports Main "HOL-Library.Word"
begin

unbundle bit_operations_syntax

section \<open>The stepper driver of LasaurGrbl (stepper.c)\<close>

text \<open>
  A shallow embedding of \<^verbatim>\<open>src/stepper.c\<close>. The firmware runs on an 8-bit AVR
  (the file includes \<^verbatim>\<open>avr/interrupt.h\<close> and \<^verbatim>\<open>util/delay.h\<close> and programs the 16-bit
  Timer 1 and the 8-bit Timer 2), so
  \<^item> \<^verbatim>\<open>uint8_t\<close> is \<open>8 word\<close>, \<^verbatim>\<open>uint16_t\<close> is \<open>16 word\<close>, \<^verbatim>\<open>uint32_t\<close> and \<^verbatim>\<open>int32_t\<close> are
    \<open>32 word\<close> (read with \<open>unat\<close>, respectively \<open>sint\<close>);
  \<^item> the C type \<^verbatim>\<open>int\<close> has 16 bits and \<^verbatim>\<open>long\<close> has 32 bits (avr-gcc), which matters for
    constant expressions that carry no \<^verbatim>\<open>L\<close> suffix.
\<close>

type_synonym u8 = "8 word"
type_synonym u16 = "16 word"
type_synonym u32 = "32 word"

subsection \<open>Configuration constants\<close>

text \<open>
  The macros of \<^verbatim>\<open>config.h\<close> are not part of the sources at hand. The functions below take
  them as one parameter, a record with one field per macro that \<^verbatim>\<open>stepper.c\<close> uses.
\<close>

record config =
  F_CPU :: u32
  ACCELERATION_TICKS_PER_SECOND :: u32
  MINIMUM_STEPS_PER_MINUTE :: u32
  CONFIG_PULSE_MICROSECONDS :: u32
  X_STEP_BIT :: nat
  Y_STEP_BIT :: nat
  Z_STEP_BIT :: nat
  X_DIRECTION_BIT :: nat
  Y_DIRECTION_BIT :: nat
  Z_DIRECTION_BIT :: nat
  STEPPING_MASK :: u8
  DIRECTION_MASK :: u8
  INVERT_MASK :: u8
  LIMIT_MASK :: u8
  X1_LIMIT_BIT :: nat
  Y1_LIMIT_BIT :: nat
  X_AXIS :: nat
  Y_AXIS :: nat
  Z_AXIS :: nat

text \<open>\<^verbatim>\<open>#define CYCLES_PER_MICROSECOND (F_CPU/1000000)\<close>\<close>

definition CYCLES_PER_MICROSECOND :: "config \<Rightarrow> u32" where
  "CYCLES_PER_MICROSECOND cfg = F_CPU cfg div 1000000"

text \<open>\<^verbatim>\<open>#define CYCLES_PER_ACCELERATION_TICK (F_CPU/ACCELERATION_TICKS_PER_SECOND)\<close>\<close>

definition CYCLES_PER_ACCELERATION_TICK :: "config \<Rightarrow> u32" where
  "CYCLES_PER_ACCELERATION_TICK cfg = F_CPU cfg div ACCELERATION_TICKS_PER_SECOND cfg"

text \<open>
  A sample configuration, used where a statement is evaluated on concrete data: a 16 MHz
  clock, 100 acceleration ticks per second, step bits 0..2 and direction bits 3..5 of the
  stepping port, no inverted lines, limit switches on bits 0 and 1 of the limit port, and
  the axes x, y, z at the indices 0, 1, 2 of the position array.
\<close>

definition sample_config :: config where
  "sample_config = \<lparr>
     F_CPU = 16000000,
     ACCELERATION_TICKS_PER_SECOND = 100,
     MINIMUM_STEPS_PER_MINUTE = 1600,
     CONFIG_PULSE_MICROSECONDS = 5,
     X_STEP_BIT = 0, Y_STEP_BIT = 1, Z_STEP_BIT = 2,
     X_DIRECTION_BIT = 3, Y_DIRECTION_BIT = 4, Z_DIRECTION_BIT = 5,
     STEPPING_MASK = 7, DIRECTION_MASK = 56, INVERT_MASK = 0,
     LIMIT_MASK = 3, X1_LIMIT_BIT = 0, Y1_LIMIT_BIT = 1,
     X_AXIS = 0, Y_AXIS = 1, Z_AXIS = 2 \<rparr>"

subsection \<open>The rate quantizer: \<^verbatim>\<open>config_step_timer\<close>\<close>

text \<open>
  The result of the if-chain of \<^verbatim>\<open>config_step_timer\<close>: the local variables \<^verbatim>\<open>ceiling\<close>
  (\<^verbatim>\<open>uint16_t\<close>), \<^verbatim>\<open>prescaler\<close> (\<^verbatim>\<open>uint16_t\<close>) and \<^verbatim>\<open>actual_cycles\<close> (\<^verbatim>\<open>uint32_t\<close>).

  In the first five branches the product is \<^verbatim>\<open>ceiling * 8L\<close>, ..., \<^verbatim>\<open>ceiling * 1024L\<close>: the
  \<^verbatim>\<open>L\<close> suffix makes it a 32-bit multiplication. The last branch is written
  \<^verbatim>\<open>actual_cycles = 0xffff * 1024;\<close> without a suffix. With a 16-bit \<^verbatim>\<open>int\<close> the constant
  \<^verbatim>\<open>0xffff\<close> has type \<^verbatim>\<open>unsigned int\<close> (it does not fit \<^verbatim>\<open>int\<close>), \<^verbatim>\<open>1024\<close> is converted to
  \<^verbatim>\<open>unsigned int\<close>, and the product is computed modulo \<open>2 ^ 16\<close> before it is widened to
  \<^verbatim>\<open>uint32_t\<close>.
\<close>

definition step_timer_values :: "u32 \<Rightarrow> u16 \<times> u16 \<times> u32" where
  "step_timer_values cycles =
     (if cycles \<le> 0xffff then
        (let ceiling = (ucast cycles :: u16) in (ceiling, 0, ucast ceiling))
      else if cycles \<le> 0x7ffff then
        (let ceiling = (ucast (drop_bit 3 cycles) :: u16) in (ceiling, 1, ucast ceiling * 8))
      else if cycles \<le> 0x3fffff then
        (let ceiling = (ucast (drop_bit 6 cycles) :: u16) in (ceiling, 2, ucast ceiling * 64))
      else if cycles \<le> 0xffffff then
        (let ceiling = (ucast (drop_bit 8 cycles) :: u16) in (ceiling, 3, ucast ceiling * 256))
      else if cycles \<le> 0x3ffffff then
        (let ceiling = (ucast (drop_bit 10 cycles) :: u16) in (ceiling, 4, ucast ceiling * 1024))
      else
        (0xffff, 4, ucast ((0xffff :: u16) * 1024)))"

text \<open>The divisor that a prescaler index stands for (the comments of the source).\<close>

definition prescaler_divisor :: "u16 \<Rightarrow> nat" where
  "prescaler_divisor p =
     (if p = 0 then 1 else if p = 1 then 8 else if p = 2 then 64
      else if p = 3 then 256 else 1024)"

subsection \<open>Blocks, sensors and the state of the driver\<close>

text \<open>
  Modelled from the spec: \<^verbatim>\<open>block_t\<close> and the \<^verbatim>\<open>TYPE_*\<close> constants are declared in
  \<^verbatim>\<open>planner.h\<close>, which is not among the sources. The spec gives the kind as a variant of
  \<open>LINE\<close>, \<open>ENABLE_AIR\<close>, \<open>ENABLE_GAS\<close>, \<open>DISABLE_AIR_AND_GAS\<close>, and for a line the per-axis
  step counts, the direction bitmask, \<open>step_event_count\<close>, the three rates, \<open>rate_delta\<close>,
  \<open>accelerate_until\<close>, \<open>decelerate_after\<close> and the target intensity. The fields are the ones
  \<^verbatim>\<open>stepper.c\<close> reads through \<^verbatim>\<open>current_block\<close>; the counts and rates are 32-bit
  quantities. \<^verbatim>\<open>stepper.c\<close> combines them with its own \<^verbatim>\<open>uint32_t\<close> and \<^verbatim>\<open>int32_t\<close> variables,
  which is arithmetic modulo \<open>2 ^ 32\<close> whatever the signedness of the field.
\<close>

datatype block_type = TYPE_LINE | TYPE_AIRGAS_DISABLE | TYPE_AIR_ENABLE | TYPE_GAS_ENABLE

record block_t =
  type :: block_type
  steps_x :: u32
  steps_y :: u32
  steps_z :: u32
  direction_bits :: u8
  step_event_count :: u32
  nominal_rate :: u32
  initial_rate :: u32
  final_rate :: u32
  rate_delta :: u32
  accelerate_until :: u32
  decelerate_after :: u32
  nominal_laser_intensity :: u8

text \<open>
  The stop causes (\<^verbatim>\<open>STATUS_*\<close>, declared outside \<^verbatim>\<open>stepper.c\<close>) are distinct codes; only
  the four that \<^verbatim>\<open>stepper.c\<close> names are modelled.
\<close>

datatype status = STATUS_OK | STATUS_STOP_LIMIT_HIT | STATUS_STOP_CHILLER_OFF | STATUS_STOP_POWER_OFF

text \<open>
  Modelled from the spec: the \<^verbatim>\<open>SENSE_*\<close> macros of \<^verbatim>\<open>sense_control.h\<close> are not among the
  sources. The spec describes them as a composite "any fault/pause condition active" signal
  plus discriminants for each specific cause (limit hit, interlock loss, power loss,
  enclosure open). One invocation of the interrupt handler sees one snapshot of the four
  discriminants; the composite signal is their disjunction.
\<close>

record sense =
  SENSE_LIMITS :: bool
  SENSE_CHILLER_OFF :: bool
  SENSE_POWER_OFF :: bool
  SENSE_DOOR_OPEN :: bool

definition SENSE_ANY :: "sense \<Rightarrow> bool" where
  "SENSE_ANY sn \<longleftrightarrow>
     SENSE_LIMITS sn \<or> SENSE_CHILLER_OFF sn \<or> SENSE_POWER_OFF sn \<or> SENSE_DOOR_OPEN sn"

definition all_clear :: sense where
  "all_clear = \<lparr> SENSE_LIMITS = False, SENSE_CHILLER_OFF = False,
                  SENSE_POWER_OFF = False, SENSE_DOOR_OPEN = False \<rparr>"

text \<open>
  The state: the static variables of \<^verbatim>\<open>stepper.c\<close>, the AVR registers it writes, and what it
  changes in its collaborators (the planner's block buffer with the oldest block first, the
  two position-update requests, the laser intensity and the air and gas valves).
  \<^verbatim>\<open>current_block\<close> is a pointer that is \<^verbatim>\<open>NULL\<close> or points to the oldest block of the buffer.
\<close>

record machine =
  stepper_position :: "u32 list"
  current_block :: "block_t option"
  out_bits :: u8
  counter_x :: u32
  counter_y :: u32
  counter_z :: u32
  step_events_completed :: u32
  busy :: bool
  cycles_per_step_event :: u32
  acceleration_tick_counter :: u32
  adjusted_rate :: u32
  processing_flag :: bool
  stop_requested :: bool
  stop_status :: status
  STEPPING_DDR :: u8
  STEPPING_PORT :: u8
  TCCR1A :: u8
  TCCR1B :: u8
  OCR1A :: u16
  TIMSK1 :: u8
  TCCR2A :: u8
  TCCR2B :: u8
  TCNT2 :: u8
  TIMSK2 :: u8
  block_buffer :: "block_t list"
  planner_position_update_requested :: bool
  gcode_position_update_requested :: bool
  laser_intensity :: u8
  air_enabled :: bool
  gas_enabled :: bool

text \<open>
  What a C execution can do besides returning: read through a null \<^verbatim>\<open>current_block\<close>, or
  divide by zero.
\<close>

datatype fault = Null_Block_Dereference | Division_By_Zero

text \<open>Register bit numbers of avr-libc for the ATmega328P.\<close>

definition WGM10 :: nat where "WGM10 = 0"
definition WGM11 :: nat where "WGM11 = 1"
definition WGM12 :: nat where "WGM12 = 3"
definition WGM13 :: nat where "WGM13 = 4"
definition COM1A0 :: nat where "COM1A0 = 6"
definition COM1B0 :: nat where "COM1B0 = 4"
definition CS10 :: nat where "CS10 = 0"
definition CS21 :: nat where "CS21 = 1"
definition OCIE1A :: nat where "OCIE1A = 1"
definition TOIE2 :: nat where "TOIE2 = 0"

text \<open>
  Modelled from the spec: \<^verbatim>\<open>clear_vector\<close> is a macro declared outside \<^verbatim>\<open>stepper.c\<close>. Its
  only argument is the array; \<^verbatim>\<open>stepper_init\<close> uses it to produce what the spec calls the
  "zeroed position" of system start, so it sets every element to zero.
\<close>

definition clear_vector :: "u32 list \<Rightarrow> u32 list" where
  "clear_vector v = map (\<lambda>_. 0) v"

subsection \<open>The collaborators\<close>

text \<open>
  Modelled from the spec: the planner, the G-code interpreter and the actuator layer are
  not among the sources. From the spec's section on external interfaces:
  fetch-current-block returns the oldest unconsumed block or none, discard-current-block
  removes it, reset-all drops all queued blocks, and the two position-update calls record
  a request to resynchronise; the actuator commands set the intensity and the two valves.
\<close>

definition planner_get_current_block :: "machine \<Rightarrow> block_t option" where
  "planner_get_current_block m = (case block_buffer m of [] \<Rightarrow> None | b # _ \<Rightarrow> Some b)"

definition planner_discard_current_block :: "machine \<Rightarrow> machine" where
  "planner_discard_current_block m = m\<lparr>block_buffer := tl (block_buffer m)\<rparr>"

definition planner_reset_block_buffer :: "machine \<Rightarrow> machine" where
  "planner_reset_block_buffer m = m\<lparr>block_buffer := []\<rparr>"

definition planner_request_position_update :: "machine \<Rightarrow> machine" where
  "planner_request_position_update m = m\<lparr>planner_position_update_requested := True\<rparr>"

definition gcode_request_position_update :: "machine \<Rightarrow> machine" where
  "gcode_request_position_update m = m\<lparr>gcode_position_update_requested := True\<rparr>"

definition control_laser_intensity :: "u8 \<Rightarrow> machine \<Rightarrow> machine" where
  "control_laser_intensity v m = m\<lparr>laser_intensity := v\<rparr>"

definition control_air :: "bool \<Rightarrow> machine \<Rightarrow> machine" where
  "control_air on m = m\<lparr>air_enabled := on\<rparr>"

definition control_gas :: "bool \<Rightarrow> machine \<Rightarrow> machine" where
  "control_gas on m = m\<lparr>gas_enabled := on\<rparr>"

subsection \<open>Start, stop and speed\<close>

definition stepper_wake_up :: "config \<Rightarrow> machine \<Rightarrow> machine" where
  "stepper_wake_up cfg m =
     (if \<not> processing_flag m then
        m\<lparr>processing_flag := True, out_bits := INVERT_MASK cfg,
          TIMSK1 := TIMSK1 m OR push_bit OCIE1A 1\<rparr>
      else m)"

definition stepper_go_idle :: "machine \<Rightarrow> machine" where
  "stepper_go_idle m =
     control_laser_intensity 0
       (m\<lparr>processing_flag := False, current_block := None,
          TIMSK1 := TIMSK1 m AND NOT (push_bit OCIE1A 1)\<rparr>)"

definition stepper_request_stop :: "status \<Rightarrow> machine \<Rightarrow> machine" where
  "stepper_request_stop st m = m\<lparr>stop_status := st, stop_requested := True\<rparr>"

definition stepper_stop_requested :: "machine \<Rightarrow> bool" where
  "stepper_stop_requested m = stop_requested m"

definition stepper_stop_status :: "machine \<Rightarrow> status" where
  "stepper_stop_status m = stop_status m"

definition stepper_resume :: "machine \<Rightarrow> machine" where
  "stepper_resume m = m\<lparr>stop_requested := False\<rparr>"

text \<open>
  \<^verbatim>\<open>config_step_timer\<close>: the if-chain above, then the two register writes
  \<^verbatim>\<open>TCCR1B = (TCCR1B & ~(0x07<<CS10)) | ((prescaler+1)<<CS10)\<close> and \<^verbatim>\<open>OCR1A = ceiling\<close>.
  It returns \<^verbatim>\<open>actual_cycles\<close>.
\<close>

definition config_step_timer :: "u32 \<Rightarrow> machine \<Rightarrow> u32 \<times> machine" where
  "config_step_timer cycles m =
     (case step_timer_values cycles of (ceiling, prescaler, actual_cycles) \<Rightarrow>
        (actual_cycles,
         m\<lparr>TCCR1B := (TCCR1B m AND NOT (push_bit CS10 0x07)) OR ucast (push_bit CS10 (prescaler + 1)),
           OCR1A := ceiling\<rparr>))"

text \<open>
  \<^verbatim>\<open>adjust_speed\<close>: the division fails for a zero divisor (only possible when
  \<^verbatim>\<open>MINIMUM_STEPS_PER_MINUTE\<close> is 0), and the last statement reads
  \<^verbatim>\<open>current_block->nominal_laser_intensity\<close> without a test of the pointer.
\<close>

definition adjust_speed :: "config \<Rightarrow> u32 \<Rightarrow> machine \<Rightarrow> fault + machine" where
  "adjust_speed cfg steps_per_minute m =
     (let steps_per_minute =
            (if steps_per_minute < MINIMUM_STEPS_PER_MINUTE cfg
             then MINIMUM_STEPS_PER_MINUTE cfg else steps_per_minute)
      in if steps_per_minute = 0 then Inl Division_By_Zero
         else
           (case config_step_timer
                   ((CYCLES_PER_MICROSECOND cfg * 1000000 * 60) div steps_per_minute) m of
              (actual_cycles, m) \<Rightarrow>
                (let m = m\<lparr>cycles_per_step_event := actual_cycles\<rparr>
                 in case current_block m of
                      None \<Rightarrow> Inl Null_Block_Dereference
                    | Some b \<Rightarrow> Inr (control_laser_intensity (nominal_laser_intensity b) m))))"

definition acceleration_tick :: "config \<Rightarrow> machine \<Rightarrow> bool \<times> machine" where
  "acceleration_tick cfg m =
     (let m = m\<lparr>acceleration_tick_counter :=
                   acceleration_tick_counter m + cycles_per_step_event m\<rparr>
      in if acceleration_tick_counter m > CYCLES_PER_ACCELERATION_TICK cfg
         then (True, m\<lparr>acceleration_tick_counter :=
                          acceleration_tick_counter m - CYCLES_PER_ACCELERATION_TICK cfg\<rparr>)
         else (False, m))"

text \<open>
  \<^verbatim>\<open>stepper_init\<close>, statement by statement. \<^verbatim>\<open>adjust_speed\<close> is called before
  \<^verbatim>\<open>current_block = NULL\<close> is assigned, with whatever \<^verbatim>\<open>current_block\<close> holds at that point.
\<close>

definition stepper_init :: "config \<Rightarrow> machine \<Rightarrow> fault + machine" where
  "stepper_init cfg m =
     (let m = m\<lparr>STEPPING_DDR := STEPPING_DDR m OR (STEPPING_MASK cfg OR DIRECTION_MASK cfg)\<rparr>;
          m = m\<lparr>STEPPING_PORT :=
                  (STEPPING_PORT m AND NOT (STEPPING_MASK cfg OR DIRECTION_MASK cfg))
                    OR INVERT_MASK cfg\<rparr>;
          m = m\<lparr>TCCR1B := TCCR1B m AND NOT (push_bit WGM13 1)\<rparr>;
          m = m\<lparr>TCCR1B := TCCR1B m OR push_bit WGM12 1\<rparr>;
          m = m\<lparr>TCCR1A := TCCR1A m AND NOT (push_bit WGM11 1)\<rparr>;
          m = m\<lparr>TCCR1A := TCCR1A m AND NOT (push_bit WGM10 1)\<rparr>;
          m = m\<lparr>TCCR1A := TCCR1A m AND NOT (push_bit COM1A0 3)\<rparr>;
          m = m\<lparr>TCCR1A := TCCR1A m AND NOT (push_bit COM1B0 3)\<rparr>;
          m = m\<lparr>TCCR2A := 0\<rparr>;
          m = m\<lparr>TCCR2B := 0\<rparr>;
          m = m\<lparr>TIMSK2 := TIMSK2 m OR push_bit TOIE2 1\<rparr>
      in case adjust_speed cfg (MINIMUM_STEPS_PER_MINUTE cfg) m of
           Inl e \<Rightarrow> Inl e
         | Inr m \<Rightarrow>
             Inr (stepper_go_idle
                    (m\<lparr>stepper_position := clear_vector (stepper_position m),
                       acceleration_tick_counter := 0,
                       current_block := None,
                       stop_requested := False,
                       stop_status := STATUS_OK,
                       busy := False\<rparr>)))"

subsection \<open>The stepper interrupt: \<^verbatim>\<open>ISR(TIMER1_COMPA_vect)\<close>\<close>

text \<open>
  The pulse emission: the two writes to \<^verbatim>\<open>STEPPING_PORT\<close> and the start of Timer 2, whose
  overflow interrupt ends the pulse. \<^verbatim>\<open>sei()\<close> only re-enables nested interrupts and has no
  counterpart in this sequential model.
\<close>

definition pulse_steppers :: "config \<Rightarrow> machine \<Rightarrow> machine" where
  "pulse_steppers cfg m =
     (let m = m\<lparr>STEPPING_PORT :=
                  (STEPPING_PORT m AND NOT (DIRECTION_MASK cfg))
                    OR (out_bits m AND DIRECTION_MASK cfg)\<rparr>;
          m = m\<lparr>STEPPING_PORT := (STEPPING_PORT m AND NOT (STEPPING_MASK cfg)) OR out_bits m\<rparr>;
          m = m\<lparr>TCNT2 := ucast (- (drop_bit 3
                    ((CONFIG_PULSE_MICROSECONDS cfg - 2) * CYCLES_PER_MICROSECOND cfg)))\<rparr>
      in m\<lparr>TCCR2B := push_bit CS21 1\<rparr>)"

text \<open>\<^verbatim>\<open>ISR(TIMER2_OVF_vect)\<close>: the end of the pulse.\<close>

definition TIMER2_OVF_vect :: "config \<Rightarrow> machine \<Rightarrow> machine" where
  "TIMER2_OVF_vect cfg m =
     m\<lparr>STEPPING_PORT :=
          (STEPPING_PORT m AND NOT (STEPPING_MASK cfg)) OR (INVERT_MASK cfg AND STEPPING_MASK cfg),
       TCCR2B := 0\<rparr>"

text \<open>
  The start of a new line block (the body of \<^verbatim>\<open>if (current_block->type == TYPE_LINE)\<close>).
  \<^verbatim>\<open>counter_x\<close> is an \<^verbatim>\<open>int32_t\<close>; the shift is the logical one, which agrees with the
  arithmetic one on every count below \<open>2 ^ 31\<close>.
\<close>

definition start_line_block :: "config \<Rightarrow> block_t \<Rightarrow> machine \<Rightarrow> fault + machine" where
  "start_line_block cfg b m =
     (let m = m\<lparr>adjusted_rate := initial_rate b\<rparr>;
          m = m\<lparr>acceleration_tick_counter := CYCLES_PER_ACCELERATION_TICK cfg div 2\<rparr>
      in case adjust_speed cfg (adjusted_rate m) m of
           Inl e \<Rightarrow> Inl e
         | Inr m \<Rightarrow>
             (let m = m\<lparr>counter_x := - (drop_bit 1 (step_event_count b))\<rparr>;
                  m = m\<lparr>counter_y := counter_x m\<rparr>;
                  m = m\<lparr>counter_z := counter_x m\<rparr>
              in Inr (m\<lparr>step_events_completed := 0\<rparr>)))"

text \<open>
  The Bresenham tracer, one axis at a time as in the source. \<^verbatim>\<open>counter_x > 0\<close> is a signed
  comparison; the position is kept in \<^verbatim>\<open>stepper_position[X_AXIS]\<close>, an array of three
  elements (the axis indices are below 3).
\<close>

definition move_position :: "nat \<Rightarrow> bool \<Rightarrow> machine \<Rightarrow> machine" where
  "move_position axis backwards m =
     (if backwards
      then m\<lparr>stepper_position := (stepper_position m)[axis := stepper_position m ! axis - 1]\<rparr>
      else m\<lparr>stepper_position := (stepper_position m)[axis := stepper_position m ! axis + 1]\<rparr>)"

definition trace_x :: "config \<Rightarrow> block_t \<Rightarrow> machine \<Rightarrow> machine" where
  "trace_x cfg b m =
     (let m = m\<lparr>counter_x := counter_x m + steps_x b\<rparr>
      in if 0 < sint (counter_x m) then
           (let m = m\<lparr>out_bits := out_bits m OR push_bit (X_STEP_BIT cfg) 1\<rparr>;
                m = m\<lparr>counter_x := counter_x m - step_event_count b\<rparr>
            in move_position (X_AXIS cfg) (bit (out_bits m) (X_DIRECTION_BIT cfg)) m)
         else m)"

definition trace_y :: "config \<Rightarrow> block_t \<Rightarrow> machine \<Rightarrow> machine" where
  "trace_y cfg b m =
     (let m = m\<lparr>counter_y := counter_y m + steps_y b\<rparr>
      in if 0 < sint (counter_y m) then
           (let m = m\<lparr>out_bits := out_bits m OR push_bit (Y_STEP_BIT cfg) 1\<rparr>;
                m = m\<lparr>counter_y := counter_y m - step_event_count b\<rparr>
            in move_position (Y_AXIS cfg) (bit (out_bits m) (Y_DIRECTION_BIT cfg)) m)
         else m)"

definition trace_z :: "config \<Rightarrow> block_t \<Rightarrow> machine \<Rightarrow> machine" where
  "trace_z cfg b m =
     (let m = m\<lparr>counter_z := counter_z m + steps_z b\<rparr>
      in if 0 < sint (counter_z m) then
           (let m = m\<lparr>out_bits := out_bits m OR push_bit (Z_STEP_BIT cfg) 1\<rparr>;
                m = m\<lparr>counter_z := counter_z m - step_event_count b\<rparr>
            in move_position (Z_AXIS cfg) (bit (out_bits m) (Z_DIRECTION_BIT cfg)) m)
         else m)"

text \<open>
  Lines 273 to 312: the direction bits, the three axes, the event count and the invert
  mask.
\<close>

definition trace_line :: "config \<Rightarrow> block_t \<Rightarrow> machine \<Rightarrow> machine" where
  "trace_line cfg b m =
     (let m = m\<lparr>out_bits := direction_bits b\<rparr>;
          m = trace_x cfg b m;
          m = trace_y cfg b m;
          m = trace_z cfg b m;
          m = m\<lparr>step_events_completed := step_events_completed m + 1\<rparr>
      in m\<lparr>out_bits := out_bits m XOR INVERT_MASK cfg\<rparr>)"

text \<open>The speed adjustment (lines 314 to 355), with the branches in the order of the source.\<close>

definition speed_adjustment :: "config \<Rightarrow> block_t \<Rightarrow> machine \<Rightarrow> fault + machine" where
  "speed_adjustment cfg b m =
     (if step_events_completed m < step_event_count b then
        if step_events_completed m < accelerate_until b then
          (case acceleration_tick cfg m of
             (True, m) \<Rightarrow>
               (let m = m\<lparr>adjusted_rate := adjusted_rate m + rate_delta b\<rparr>;
                    m = (if adjusted_rate m > nominal_rate b
                         then m\<lparr>adjusted_rate := nominal_rate b\<rparr> else m)
                in adjust_speed cfg (adjusted_rate m) m)
           | (False, m) \<Rightarrow> Inr m)
        else if step_events_completed m = decelerate_after b then
          Inr (m\<lparr>acceleration_tick_counter := CYCLES_PER_ACCELERATION_TICK cfg div 2\<rparr>)
        else if step_events_completed m \<ge> decelerate_after b then
          (case acceleration_tick cfg m of
             (True, m) \<Rightarrow>
               (let m = m\<lparr>adjusted_rate := adjusted_rate m - rate_delta b\<rparr>;
                    m = (if adjusted_rate m < final_rate b
                         then m\<lparr>adjusted_rate := final_rate b\<rparr> else m)
                in adjust_speed cfg (adjusted_rate m) m)
           | (False, m) \<Rightarrow> Inr m)
        else
          (if adjusted_rate m \<noteq> nominal_rate b
           then (let m = m\<lparr>adjusted_rate := nominal_rate b\<rparr>
                 in adjust_speed cfg (adjusted_rate m) m)
           else Inr m)
      else Inr (planner_discard_current_block (m\<lparr>current_block := None\<rparr>)))"

text \<open>The \<^verbatim>\<open>switch (current_block->type)\<close>.\<close>

definition process_block :: "config \<Rightarrow> block_t \<Rightarrow> machine \<Rightarrow> fault + machine" where
  "process_block cfg b m =
     (case type b of
        TYPE_LINE \<Rightarrow> speed_adjustment cfg b (trace_line cfg b m)
      | TYPE_AIRGAS_DISABLE \<Rightarrow>
          Inr (planner_discard_current_block
                 ((control_gas False (control_air False m))\<lparr>current_block := None\<rparr>))
      | TYPE_AIR_ENABLE \<Rightarrow>
          Inr (planner_discard_current_block ((control_air True m)\<lparr>current_block := None\<rparr>))
      | TYPE_GAS_ENABLE \<Rightarrow>
          Inr (planner_discard_current_block ((control_gas True m)\<lparr>current_block := None\<rparr>)))"

text \<open>
  The handler. \<open>sn\<close> is the snapshot of the sensors that this invocation sees. The result
  is the state at the return of the handler, or the fault that stops the execution.
\<close>

definition TIMER1_COMPA_vect :: "config \<Rightarrow> sense \<Rightarrow> machine \<Rightarrow> fault + machine" where
  "TIMER1_COMPA_vect cfg sn m =
     (if busy m then Inr m
      else
        (let m = m\<lparr>busy := True\<rparr>
         in if stop_requested m then
              Inr ((gcode_request_position_update
                      (planner_request_position_update
                         (planner_reset_block_buffer (stepper_go_idle m))))\<lparr>busy := False\<rparr>)
            else if SENSE_ANY sn then
              Inr ((if SENSE_LIMITS sn then stepper_request_stop STATUS_STOP_LIMIT_HIT m
                    else if SENSE_CHILLER_OFF sn then stepper_request_stop STATUS_STOP_CHILLER_OFF m
                    else if SENSE_POWER_OFF sn then stepper_request_stop STATUS_STOP_POWER_OFF m
                    else m)\<lparr>busy := False\<rparr>)
            else
              (let m = pulse_steppers cfg m
               in case current_block m of
                    Some b \<Rightarrow>
                      (case process_block cfg b m of
                         Inl e \<Rightarrow> Inl e
                       | Inr m \<Rightarrow> Inr (m\<lparr>busy := False\<rparr>))
                  | None \<Rightarrow>
                      (let m = m\<lparr>current_block := planner_get_current_block m\<rparr>
                       in case current_block m of
                            None \<Rightarrow> Inr ((stepper_go_idle m)\<lparr>busy := False\<rparr>)
                          | Some b \<Rightarrow>
                              (case (if type b = TYPE_LINE then start_line_block cfg b m
                                     else Inr m) of
                                 Inl e \<Rightarrow> Inl e
                               | Inr m \<Rightarrow>
                                   (case process_block cfg b m of
                                      Inl e \<Rightarrow> Inl e
                                    | Inr m \<Rightarrow> Inr (m\<lparr>busy := False\<rparr>)))))))"

text \<open>
  A sequence of invocations, one sensor snapshot each: the states at the return of each
  invocation, in order. A fault ends the sequence.
\<close>

fun isr_trace :: "config \<Rightarrow> sense list \<Rightarrow> machine \<Rightarrow> machine list" where
  "isr_trace cfg [] m = []"
| "isr_trace cfg (sn # sns) m =
     (case TIMER1_COMPA_vect cfg sn m of
        Inl e \<Rightarrow> []
      | Inr m' \<Rightarrow> m' # isr_trace cfg sns m')"

text \<open>
  \<^verbatim>\<open>stepper_synchronize\<close> sleeps until \<^verbatim>\<open>processing_flag\<close> is false. Each wake-up is one
  invocation of the stepper interrupt; \<open>sns\<close> lists the sensor snapshots of the invocations
  that are still to come. \<open>None\<close>: the flag is still set when they are used up.
\<close>

fun stepper_synchronize :: "config \<Rightarrow> sense list \<Rightarrow> machine \<Rightarrow> machine option" where
  "stepper_synchronize cfg [] m = (if processing_flag m then None else Some m)"
| "stepper_synchronize cfg (sn # sns) m =
     (if processing_flag m then
        (case TIMER1_COMPA_vect cfg sn m of
           Inl e \<Rightarrow> None
         | Inr m' \<Rightarrow> stepper_synchronize cfg sns m')
      else Some m)"

subsection \<open>The homing cycle\<close>

text \<open>
  The local variables of \<^verbatim>\<open>homing_cycle\<close> that the loop changes (\<^verbatim>\<open>out_bits\<close> is the local
  variable of that name, not the static one).
\<close>

record homing_vars =
  x_axis :: bool
  y_axis :: bool
  z_axis :: bool
  homing_out_bits :: u8
  x_overshoot_count :: u8
  y_overshoot_count :: u8

text \<open>
  One pulse of the homing loop (lines 506 to 509): the operand \<^verbatim>\<open>out_bits & STEPPING_MASK\<close> of
  the two writes, the value of \<^verbatim>\<open>STEPPING_PORT\<close> after the first write (\<^verbatim>\<open>|=\<close>), the argument
  of the first \<^verbatim>\<open>_delay_us\<close>, the value of \<^verbatim>\<open>STEPPING_PORT\<close> after the second write (\<^verbatim>\<open>^=\<close>)
  and the argument of the second \<^verbatim>\<open>_delay_us\<close>.
\<close>

record pulse =
  pulse_bits :: u8
  port_raised :: u8
  pulse_high_us :: u32
  port_toggled :: u8
  pulse_low_us :: u32

definition pulse_period_us :: "pulse \<Rightarrow> nat" where
  "pulse_period_us p = unat (pulse_high_us p) + unat (pulse_low_us p)"

text \<open>
  The first part of the loop body (lines 475 to 495): one read of \<^verbatim>\<open>LIMIT_PIN\<close>, inverted
  in a reverse cycle, then the overshoot counting for x and for y. The block for the z
  axis is commented out in the source.
\<close>

definition read_limit_bits :: "config \<Rightarrow> bool \<Rightarrow> u8 \<Rightarrow> u8" where
  "read_limit_bits cfg reverse_direction LIMIT_PIN =
     (let limit_bits = LIMIT_PIN
      in if reverse_direction then limit_bits XOR LIMIT_MASK cfg else limit_bits)"

definition check_limits :: "config \<Rightarrow> bool \<Rightarrow> u8 \<Rightarrow> homing_vars \<Rightarrow> homing_vars" where
  "check_limits cfg reverse_direction LIMIT_PIN h =
     (let limit_bits = read_limit_bits cfg reverse_direction LIMIT_PIN;
          h = (if x_axis h \<and> \<not> bit limit_bits (X1_LIMIT_BIT cfg) then
                 (if x_overshoot_count h = 0
                  then h\<lparr>x_axis := False,
                         homing_out_bits := homing_out_bits h XOR push_bit (X_STEP_BIT cfg) 1\<rparr>
                  else h\<lparr>x_overshoot_count := x_overshoot_count h - 1\<rparr>)
               else h)
      in if y_axis h \<and> \<not> bit limit_bits (Y1_LIMIT_BIT cfg) then
           (if y_overshoot_count h = 0
            then h\<lparr>y_axis := False,
                   homing_out_bits := homing_out_bits h XOR push_bit (Y_STEP_BIT cfg) 1\<rparr>
            else h\<lparr>y_overshoot_count := y_overshoot_count h - 1\<rparr>)
         else h)"

text \<open>The two writes to \<^verbatim>\<open>STEPPING_PORT\<close> of one pulse (lines 506 and 508).\<close>

definition step_axes :: "config \<Rightarrow> u8 \<Rightarrow> machine \<Rightarrow> machine" where
  "step_axes cfg bits m =
     (let m = m\<lparr>STEPPING_PORT := STEPPING_PORT m OR (bits AND STEPPING_MASK cfg)\<rparr>
      in m\<lparr>STEPPING_PORT := STEPPING_PORT m XOR (bits AND STEPPING_MASK cfg)\<rparr>)"

text \<open>
  What the log of the loop records of one pulse emitted from the state \<open>m\<close> with the local
  \<^verbatim>\<open>out_bits\<close> equal to \<open>bits\<close>.
\<close>

definition homing_pulse :: "config \<Rightarrow> u32 \<Rightarrow> u8 \<Rightarrow> machine \<Rightarrow> pulse" where
  "homing_pulse cfg step_delay bits m =
     \<lparr>pulse_bits = bits AND STEPPING_MASK cfg,
      port_raised = STEPPING_PORT m OR (bits AND STEPPING_MASK cfg),
      pulse_high_us = CONFIG_PULSE_MICROSECONDS cfg,
      port_toggled = STEPPING_PORT (step_axes cfg bits m),
      pulse_low_us = step_delay\<rparr>"

text \<open>
  The loop \<^verbatim>\<open>for(;;)\<close>. Each iteration reads \<^verbatim>\<open>LIMIT_PIN\<close> once; the fourth argument lists the
  values that the successive reads return. The result is the list of the pulses emitted
  and, when the loop has reached its \<^verbatim>\<open>break\<close>, the state and the values not yet read;
  \<open>None\<close> when the loop is still running after the last value.
\<close>

fun homing_loop ::
  "config \<Rightarrow> bool \<Rightarrow> u32 \<Rightarrow> u8 list \<Rightarrow> homing_vars \<Rightarrow> machine
     \<Rightarrow> pulse list \<times> (machine \<times> u8 list) option" where
  "homing_loop cfg reverse_direction step_delay [] h m = ([], None)"
| "homing_loop cfg reverse_direction step_delay (LIMIT_PIN # pins) h m =
     (let h = check_limits cfg reverse_direction LIMIT_PIN h
      in if x_axis h \<or> y_axis h \<or> z_axis h then
           (case homing_loop cfg reverse_direction step_delay pins h
                   (step_axes cfg (homing_out_bits h) m) of
              (ps, r) \<Rightarrow> (homing_pulse cfg step_delay (homing_out_bits h) m # ps, r))
         else ([], Some (m, pins)))"

text \<open>The initial value of the local \<^verbatim>\<open>out_bits\<close> (lines 454 to 469).\<close>

definition homing_initial_bits :: "config \<Rightarrow> bool \<Rightarrow> bool \<Rightarrow> bool \<Rightarrow> bool \<Rightarrow> u8" where
  "homing_initial_bits cfg x y z reverse_direction =
     (let out_bits = DIRECTION_MASK cfg;
          out_bits = (if x then out_bits OR push_bit (X_STEP_BIT cfg) 1 else out_bits);
          out_bits = (if y then out_bits OR push_bit (Y_STEP_BIT cfg) 1 else out_bits);
          out_bits = (if z then out_bits OR push_bit (Z_STEP_BIT cfg) 1 else out_bits);
          out_bits = (if reverse_direction then out_bits XOR DIRECTION_MASK cfg else out_bits)
      in out_bits XOR INVERT_MASK cfg)"

definition homing_cycle ::
  "config \<Rightarrow> bool \<Rightarrow> bool \<Rightarrow> bool \<Rightarrow> bool \<Rightarrow> u32 \<Rightarrow> u8 list \<Rightarrow> machine
     \<Rightarrow> pulse list \<times> (machine \<times> u8 list) option" where
  "homing_cycle cfg x y z reverse_direction microseconds_per_pulse pins m =
     (let step_delay = microseconds_per_pulse - CONFIG_PULSE_MICROSECONDS cfg;
          h = \<lparr>x_axis = x, y_axis = y, z_axis = z,
               homing_out_bits = homing_initial_bits cfg x y z reverse_direction,
               x_overshoot_count = 6, y_overshoot_count = 6\<rparr>;
          m = m\<lparr>STEPPING_PORT :=
                  (STEPPING_PORT m AND NOT (DIRECTION_MASK cfg))
                    OR (homing_out_bits h AND DIRECTION_MASK cfg)\<rparr>
      in case homing_loop cfg reverse_direction step_delay pins h m of
           (ps, None) \<Rightarrow> (ps, None)
         | (ps, Some (m, rest)) \<Rightarrow>
             (ps, Some (m\<lparr>stepper_position := clear_vector (stepper_position m)\<rparr>, rest)))"

definition approach_limit_switch ::
  "config \<Rightarrow> bool \<Rightarrow> bool \<Rightarrow> bool \<Rightarrow> u8 list \<Rightarrow> machine
     \<Rightarrow> pulse list \<times> (machine \<times> u8 list) option" where
  "approach_limit_switch cfg x y z pins m = homing_cycle cfg x y z False 1000 pins m"

definition leave_limit_switch ::
  "config \<Rightarrow> bool \<Rightarrow> bool \<Rightarrow> bool \<Rightarrow> u8 list \<Rightarrow> machine
     \<Rightarrow> pulse list \<times> (machine \<times> u8 list) option" where
  "leave_limit_switch cfg x y z pins m = homing_cycle cfg x y z True 10000 pins m"

text \<open>
  \<^verbatim>\<open>stepper_homing_cycle\<close>: wait for the queue to drain, approach, leave. The result holds
  the pulses of the two phases and the final state; \<open>None\<close> when one of the three loops does
  not come to its end on the given inputs.
\<close>

definition stepper_homing_cycle ::
  "config \<Rightarrow> sense list \<Rightarrow> u8 list \<Rightarrow> machine \<Rightarrow> (pulse list \<times> pulse list \<times> machine) option" where
  "stepper_homing_cycle cfg sns pins m =
     (case stepper_synchronize cfg sns m of
        None \<Rightarrow> None
      | Some m \<Rightarrow>
          (case approach_limit_switch cfg True True False pins m of
             (ps1, None) \<Rightarrow> None
           | (ps1, Some (m, rest)) \<Rightarrow>
               (case leave_limit_switch cfg True True False rest m of
                  (ps2, None) \<Rightarrow> None
                | (ps2, Some (m, rest')) \<Rightarrow> Some (ps1, ps2, m))))"

text \<open>
  A machine at rest, for evaluating statements on concrete data: nothing queued, no
  current block, position \<open>(10, 20, 30)\<close>.
\<close>

definition idle_machine :: machine where
  "idle_machine = \<lparr>
     stepper_position = [10, 20, 30], current_block = None, out_bits = 0,
     counter_x = 0, counter_y = 0, counter_z = 0, step_events_completed = 0,
     busy = False, cycles_per_step_event = 0, acceleration_tick_counter = 0,
     adjusted_rate = 0, processing_flag = False, stop_requested = False,
     stop_status = STATUS_OK, STEPPING_DDR = 0, STEPPING_PORT = 0,
     TCCR1A = 0, TCCR1B = 0, OCR1A = 0, TIMSK1 = 0,
     TCCR2A = 0, TCCR2B = 0, TCNT2 = 0, TIMSK2 = 0,
     block_buffer = [], planner_position_update_requested = False,
     gcode_position_update_requested = False, laser_intensity = 0,
     air_enabled = False, gas_enabled = False \<rparr>"

text \<open>
  The example block of the spec: 4 steps in x, 6 steps in y, 6 step events, with a
  trapezoid that accelerates for two events and decelerates after the fourth.
\<close>

definition sample_line :: block_t where
  "sample_line = \<lparr>
     type = TYPE_LINE, steps_x = 4, steps_y = 6, steps_z = 0, direction_bits = 0,
     step_event_count = 6, nominal_rate = 30000, initial_rate = 10000, final_rate = 10000,
     rate_delta = 500, accelerate_until = 2, decelerate_after = 4,
     nominal_laser_intensity = 128 \<rparr>"

text \<open>The machine at rest with the example block queued and the stepper woken up.\<close>

definition queued_machine :: machine where
  "queued_machine = stepper_wake_up sample_config (idle_machine\<lparr>block_buffer := [sample_line]\<rparr>)"

text \<open>The same machine in the middle of the block, and then with a stop requested.\<close>

definition running_machine :: machine where
  "running_machine =
     queued_machine\<lparr>current_block := Some sample_line, step_events_completed := 3\<rparr>"

definition stopping_machine :: machine where
  "stopping_machine =
     running_machine\<lparr>stop_requested := True, stop_status := STATUS_STOP_POWER_OFF\<rparr>"

text \<open>
  A line block whose exit rate lies above its entry rate and that has no cruise phase:
  acceleration ends and deceleration begins at the first step event. It satisfies the
  block invariant of the spec (\<open>0 \<le> accelerate_until \<le> decelerate_after \<le>
  step_event_count\<close>, both other rates at most the nominal rate).
\<close>

definition late_rise_line :: block_t where
  "late_rise_line = \<lparr>
     type = TYPE_LINE, steps_x = 4, steps_y = 6, steps_z = 0, direction_bits = 0,
     step_event_count = 6, nominal_rate = 10000, initial_rate = 2000, final_rate = 5000,
     rate_delta = 500, accelerate_until = 1, decelerate_after = 1,
     nominal_laser_intensity = 128 \<rparr>"

definition late_rise_machine :: machine where
  "late_rise_machine =
     stepper_wake_up sample_config (idle_machine\<lparr>block_buffer := [late_rise_line]\<rparr>)"

text \<open>
  A configuration with an inverted x step line: the polarity mask holds the x step bit,
  so that the line rests high and a step is a low pulse. The machine at rest under that
  configuration is as the reset handler leaves the port, with the x step line high.
\<close>

definition inverted_step_config :: config where
  "inverted_step_config =
     sample_config\<lparr>INVERT_MASK := push_bit (X_STEP_BIT sample_config) 1\<rparr>"

definition inverted_idle_machine :: machine where
  "inverted_idle_machine = TIMER2_OVF_vect inverted_step_config idle_machine"

subsection \<open>Notions used in the statements and proofs\<close>

text \<open>
  The part of the state that belongs to the tracer, as one value: the speed controller
  leaves it alone.
\<close>

definition motion_view ::
  "machine \<Rightarrow> u32 list \<times> u8 \<times> u32 \<times> u32 \<times> u32 \<times> u32 \<times> bool \<times> bool" where
  "motion_view m =
     (stepper_position m, out_bits m, counter_x m, counter_y m, counter_z m,
      step_events_completed m, stop_requested m, busy m)"

text \<open>
  The part of the state that belongs to the speed controller and the queue: the tracer
  leaves it alone.
\<close>

definition speed_view ::
  "machine \<Rightarrow> u32 \<times> u32 \<times> u32 \<times> block_t option \<times> block_t list \<times> bool \<times> bool" where
  "speed_view m =
     (adjusted_rate m, acceleration_tick_counter m, cycles_per_step_event m,
      current_block m, block_buffer m, stop_requested m, busy m)"

text \<open>
  The step bit of an axis in the pattern that the tracer has computed: \<^verbatim>\<open>out_bits\<close> holds
  the pattern after the invert mask has been applied, so the mask is taken off again.
\<close>

definition step_bit_set :: "config \<Rightarrow> nat \<Rightarrow> machine \<Rightarrow> bool" where
  "step_bit_set cfg n m = bit (out_bits m XOR INVERT_MASK cfg) n"

text \<open>
  One error accumulator of the tracer on unbounded integers: from the value \<open>c\<close>, with
  \<open>s\<close> steps to make in \<open>n\<close> events, the step decisions of the next events and the value
  after them.
\<close>

fun dda_flags :: "int \<Rightarrow> int \<Rightarrow> int \<Rightarrow> nat \<Rightarrow> bool list" where
  "dda_flags n s c 0 = []"
| "dda_flags n s c (Suc j) =
     (if 0 < c + s then True # dda_flags n s (c + s - n) j
      else False # dda_flags n s (c + s) j)"

fun dda_counter :: "int \<Rightarrow> int \<Rightarrow> int \<Rightarrow> nat \<Rightarrow> int" where
  "dda_counter n s c 0 = c"
| "dda_counter n s c (Suc j) =
     (if 0 < c + s then dda_counter n s (c + s - n) j else dda_counter n s (c + s) j)"

text \<open>
  One event of a line block, as a relation between the values before the event and the
  state at the return of the handler. The values before are the three accumulators, the
  event count, the rate and the planner's buffer. The accumulator of an axis with \<open>s\<close>
  steps moves from \<open>c\<close> to \<open>next_counter b s c\<close>; the rate moves as the branch of the speed
  adjustment that belongs to the new event count \<open>k\<close> allows (a branch with a tick may
  or may not change the rate, depending on the tick counter).
\<close>

definition next_counter :: "block_t \<Rightarrow> u32 \<Rightarrow> u32 \<Rightarrow> u32" where
  "next_counter b s c = (if 0 < sint (c + s) then c + s - step_event_count b else c + s)"

definition rate_step :: "block_t \<Rightarrow> u32 \<Rightarrow> u32 \<Rightarrow> u32 \<Rightarrow> bool" where
  "rate_step b k r r' \<longleftrightarrow>
     (if \<not> k < step_event_count b then r' = r
      else if k < accelerate_until b then
        r' = r \<or> r' = (if nominal_rate b < r + rate_delta b then nominal_rate b
                        else r + rate_delta b)
      else if k = decelerate_after b then r' = r
      else if decelerate_after b \<le> k then
        r' = r \<or> r' = (if r - rate_delta b < final_rate b then final_rate b
                        else r - rate_delta b)
      else r' = nominal_rate b)"

type_synonym line_state = "u32 \<times> u32 \<times> u32 \<times> u32 \<times> u32 \<times> block_t list"

definition line_view :: "machine \<Rightarrow> line_state" where
  "line_view m =
     (counter_x m, counter_y m, counter_z m, step_events_completed m, adjusted_rate m,
      block_buffer m)"

definition after_line_event :: "config \<Rightarrow> block_t \<Rightarrow> line_state \<Rightarrow> machine \<Rightarrow> bool" where
  "after_line_event cfg b pre m' \<longleftrightarrow>
     (case pre of (cx, cy, cz, k, r, bb) \<Rightarrow>
        \<not> busy m' \<and> \<not> stop_requested m' \<and>
        step_events_completed m' = k + 1 \<and>
        counter_x m' = next_counter b (steps_x b) cx \<and>
        counter_y m' = next_counter b (steps_y b) cy \<and>
        counter_z m' = next_counter b (steps_z b) cz \<and>
        out_bits m' XOR INVERT_MASK cfg =
          ((direction_bits b
             OR (if 0 < sint (cx + steps_x b) then push_bit (X_STEP_BIT cfg) 1 else 0))
             OR (if 0 < sint (cy + steps_y b) then push_bit (Y_STEP_BIT cfg) 1 else 0))
             OR (if 0 < sint (cz + steps_z b) then push_bit (Z_STEP_BIT cfg) 1 else 0) \<and>
        current_block m' = (if k + 1 < step_event_count b then Some b else None) \<and>
        block_buffer m' = (if k + 1 < step_event_count b then bb else tl bb) \<and>
        rate_step b (k + 1) r (adjusted_rate m'))"

text \<open>A list of states in which each one comes from the one before by one event.\<close>

fun line_chain :: "config \<Rightarrow> block_t \<Rightarrow> line_state \<Rightarrow> machine list \<Rightarrow> bool" where
  "line_chain cfg b pre [] = True"
| "line_chain cfg b pre (m # ms) =
     (after_line_event cfg b pre m \<and> line_chain cfg b (line_view m) ms)"

text \<open>
  The same for one axis alone: \<open>cnt\<close> reads its accumulator and \<open>flag\<close> its step bit.
\<close>

fun axis_chain ::
  "block_t \<Rightarrow> u32 \<Rightarrow> (machine \<Rightarrow> bool) \<Rightarrow> (machine \<Rightarrow> u32) \<Rightarrow> u32 \<Rightarrow> machine list \<Rightarrow> bool" where
  "axis_chain b s flag cnt c [] = True"
| "axis_chain b s flag cnt c (m # ms) =
     (cnt m = next_counter b s c \<and> flag m = (0 < sint (c + s)) \<and>
      axis_chain b s flag cnt (cnt m) ms)"

text \<open>
  What the statements about the tracer assume of the configuration and of a block: the
  three step bits are different bits of the port, and the direction bits of the block
  contain none of them.
\<close>

definition step_bits_distinct :: "config \<Rightarrow> bool" where
  "step_bits_distinct cfg \<longleftrightarrow>
     X_STEP_BIT cfg < 8 \<and> Y_STEP_BIT cfg < 8 \<and> Z_STEP_BIT cfg < 8 \<and>
     X_STEP_BIT cfg \<noteq> Y_STEP_BIT cfg \<and> X_STEP_BIT cfg \<noteq> Z_STEP_BIT cfg \<and>
     Y_STEP_BIT cfg \<noteq> Z_STEP_BIT cfg"

definition direction_bits_only :: "config \<Rightarrow> block_t \<Rightarrow> bool" where
  "direction_bits_only cfg b \<longleftrightarrow>
     \<not> bit (direction_bits b) (X_STEP_BIT cfg) \<and> \<not> bit (direction_bits b) (Y_STEP_BIT cfg) \<and>
     \<not> bit (direction_bits b) (Z_STEP_BIT cfg)"

section \<open>Properties\<close>

subsection \<open>The rate quantizer\<close>

lemma unat_ucast_32_16: "unat (ucast (w :: u32) :: u16) = unat w mod 2 ^ 16"
  by (simp add: unsigned_ucast_eq take_bit_eq_mod)

lemma unat_ucast_16_32: "unat (ucast (w :: u16) :: u32) = unat w"
proof -
  have "unat w < 2 ^ 16" using unsigned_less[of w] by simp
  then show ?thesis by (simp add: unsigned_ucast_eq take_bit_nat_eq_self)
qed

lemma ceiling_of_shift:
  fixes c :: u32
  assumes "unat c < 2 ^ (16 + k)" "unat dv = 2 ^ k"
  shows "unat (ucast (drop_bit k c) :: u16) = unat c div 2 ^ k"
    and "unat (ucast (ucast (drop_bit k c) :: u16) * dv :: u32) = (unat c div 2 ^ k) * 2 ^ k"
proof -
  have a: "unat c div 2 ^ k < 2 ^ 16"
    using assms(1) by (simp add: less_mult_imp_div_less power_add)
  have b0: "unat (drop_bit k c) = unat c div 2 ^ k"
    unfolding unat_drop_bit_eq by (simp add: drop_bit_eq_div)
  show b1: "unat (ucast (drop_bit k c) :: u16) = unat c div 2 ^ k"
    unfolding unat_ucast_32_16 b0 using a by simp
  have b: "unat (ucast (ucast (drop_bit k c) :: u16) :: u32) = unat c div 2 ^ k"
    unfolding unat_ucast_16_32 b1 ..
  have "unat c div 2 ^ k * 2 ^ k \<le> unat c" by simp
  also have "\<dots> < 2 ^ 32" using unsigned_less[of c] by simp
  finally have c: "unat c div 2 ^ k * 2 ^ k < 2 ^ 32" .
  show "unat (ucast (ucast (drop_bit k c) :: u16) * dv :: u32) = (unat c div 2 ^ k) * 2 ^ k"
    unfolding unat_word_ariths b assms(2) using c by simp
qed

text \<open>
  What holds of the quantizer on every input: the returned count is at most the requested
  one, it is a multiple of the divisor of the selected prescaler, and it is at most
  \<open>0xffff * 1024\<close>. Up to \<open>0x3ffffff\<close> it is the reload value times the divisor, and less
  than one divisor below the request.
\<close>

lemma step_timer_values_rounds_down:
  "case step_timer_values c of (ce, p, a) \<Rightarrow>
     unat a \<le> unat c \<and> prescaler_divisor p dvd unat a \<and> unat a \<le> 0xffff * 1024 \<and>
     (c \<le> 0x3ffffff \<longrightarrow>
        unat a = unat ce * prescaler_divisor p \<and> unat c < unat a + prescaler_divisor p)"
proof -
  have k0: "unat c \<le> 65535 \<Longrightarrow> unat (ucast c :: u16) = unat c"
       "unat c \<le> 65535 \<Longrightarrow> unat (ucast (ucast c :: u16) :: u32) = unat c"
    by (simp_all add: unat_ucast_16_32 unat_ucast_32_16)
  have k3: "unat c \<le> 524287 \<Longrightarrow>
              unat (ucast (ucast (drop_bit 3 c) :: u16) * 8 :: u32) = (unat c div 8) * 8"
           "unat c \<le> 524287 \<Longrightarrow> unat (ucast (drop_bit 3 c) :: u16) = (unat c div 8)"
    using ceiling_of_shift[of c 3 8] by simp_all
  have k6: "unat c \<le> 4194303 \<Longrightarrow>
              unat (ucast (ucast (drop_bit 6 c) :: u16) * 64 :: u32) = (unat c div 64) * 64"
           "unat c \<le> 4194303 \<Longrightarrow> unat (ucast (drop_bit 6 c) :: u16) = (unat c div 64)"
    using ceiling_of_shift[of c 6 64] by simp_all
  have k8: "unat c \<le> 16777215 \<Longrightarrow>
              unat (ucast (ucast (drop_bit 8 c) :: u16) * 256 :: u32) = (unat c div 256) * 256"
           "unat c \<le> 16777215 \<Longrightarrow> unat (ucast (drop_bit 8 c) :: u16) = (unat c div 256)"
    using ceiling_of_shift[of c 8 256] by simp_all
  have k10: "unat c \<le> 67108863 \<Longrightarrow>
               unat (ucast (ucast (drop_bit 10 c) :: u16) * 1024 :: u32) = (unat c div 1024) * 1024"
            "unat c \<le> 67108863 \<Longrightarrow> unat (ucast (drop_bit 10 c) :: u16) = (unat c div 1024)"
    using ceiling_of_shift[of c 10 1024] by simp_all
  have r: "\<And>d::nat. 0 < d \<Longrightarrow> unat c < unat c div d * d + d"
    by (metis add.commute div_mult_mod_eq mod_less_divisor nat_add_left_cancel_less mult.commute)
  show ?thesis
    unfolding step_timer_values_def Let_def
    by (simp add: word_le_nat_alt prescaler_divisor_def k0 k3 k6 k8 k10 r) arith
qed

text \<open>The example of the spec: 70000 cycles select the divisor 8 and are kept as they are.\<close>

lemma step_timer_values_70000: "step_timer_values 70000 = (8750, 1, 70000)"
  by (simp add: step_timer_values_def)

text \<open>
  Claim C3. The quantizer returns a multiple of the selected divisor that is at most the
  request and at most \<open>0xffff * 1024\<close>, and a request above \<open>0x3ffffff\<close> is clamped to exactly
  \<open>0xffff * 1024 = 67107840\<close>.

  The last part fails on the target. For the request \<open>0x4000000\<close> the timer is programmed
  with the reload value \<open>0xffff\<close> and the divisor 1024, but the value returned is
  \<open>0xffff * 1024\<close> computed in 16-bit arithmetic, which is \<open>0xFC00 = 64512\<close>, not \<open>67107840\<close>.
  The five other branches multiply by a constant with the suffix \<^verbatim>\<open>L\<close>; this one does not.
\<close>

theorem config_step_timer_clamp_is_truncated:
  "fst (config_step_timer 0x4000000 m) = 0xFC00 \<and>
   OCR1A (snd (config_step_timer 0x4000000 m)) = 0xffff \<and>
   unat (fst (config_step_timer 0x4000000 m)) \<noteq> 0xffff * 1024"
  by (simp add: config_step_timer_def step_timer_values_def)

subsection \<open>Null block in \<^verbatim>\<open>adjust_speed\<close>\<close>

lemma adjust_speed_without_block:
  "MINIMUM_STEPS_PER_MINUTE cfg \<noteq> 0 \<Longrightarrow> current_block m = None \<Longrightarrow>
     adjust_speed cfg r m = Inl Null_Block_Dereference"
  by (auto simp add: adjust_speed_def config_step_timer_def Let_def word_gt_0 split: prod.splits)

text \<open>
  Claim C10. \<^verbatim>\<open>adjust_speed\<close> reads \<^verbatim>\<open>current_block->nominal_laser_intensity\<close> on every call,
  so it needs a current block; \<^verbatim>\<open>stepper_init\<close> calls it while \<^verbatim>\<open>current_block\<close> is still null
  (the pointer is a zero-initialised static and no block has been fetched), and so reads
  through a null pointer. (\<^verbatim>\<open>MINIMUM_STEPS_PER_MINUTE\<close> is taken to be non-zero, so that the
  division before the read is defined.)
\<close>

theorem stepper_init_reads_null_block:
  assumes "MINIMUM_STEPS_PER_MINUTE cfg \<noteq> 0" and "current_block m = None"
  shows "(\<forall>r. adjust_speed cfg r m = Inl Null_Block_Dereference) \<and>
         stepper_init cfg m = Inl Null_Block_Dereference"
  using assms by (simp add: stepper_init_def Let_def adjust_speed_without_block)

theorem stepper_init_reads_null_block_witness:
  "adjust_speed sample_config 1600 idle_machine = Inl Null_Block_Dereference \<and>
   stepper_init sample_config idle_machine = Inl Null_Block_Dereference"
  using stepper_init_reads_null_block [of sample_config idle_machine]
  by (simp add: sample_config_def idle_machine_def)

subsection \<open>Stop requests and sensors\<close>

text \<open>
  Claim C4. When \<^verbatim>\<open>stop_requested\<close> is set at the start of an invocation (that is not a
  re-entry), the invocation only goes idle (\<^verbatim>\<open>processing_flag\<close> false, \<^verbatim>\<open>current_block\<close>
  cleared, stepper interrupt disabled, laser off), empties the planner's buffer and asks
  for the two position updates; the sensors are not looked at and no pulse is emitted.
  \<^verbatim>\<open>stepper_resume\<close> afterwards changes \<^verbatim>\<open>stop_requested\<close> only: the buffer stays empty,
  there is no current block, and the next invocation finds nothing to move.
\<close>

theorem stop_request_goes_idle_and_empties_queue:
  assumes "\<not> busy m" and "stop_requested m"
  shows "\<exists>m'. TIMER1_COMPA_vect cfg sn m = Inr m' \<and>
           m' = m\<lparr>processing_flag := False, current_block := None,
                   TIMSK1 := TIMSK1 m AND NOT (push_bit OCIE1A 1), laser_intensity := 0,
                   block_buffer := [], planner_position_update_requested := True,
                   gcode_position_update_requested := True\<rparr> \<and>
           stepper_resume m' = m'\<lparr>stop_requested := False\<rparr> \<and>
           block_buffer (stepper_resume m') = [] \<and>
           current_block (stepper_resume m') = None \<and>
           \<not> processing_flag (stepper_resume m') \<and>
           (\<exists>m''. TIMER1_COMPA_vect cfg all_clear (stepper_resume m') = Inr m'' \<and>
                  current_block m'' = None \<and> \<not> processing_flag m'' \<and>
                  stepper_position m'' = stepper_position m)"
  using assms
  by (simp add: TIMER1_COMPA_vect_def Let_def stepper_go_idle_def planner_reset_block_buffer_def
      planner_request_position_update_def gcode_request_position_update_def
      control_laser_intensity_def stepper_resume_def SENSE_ANY_def all_clear_def
      pulse_steppers_def planner_get_current_block_def)

theorem stop_request_goes_idle_and_empties_queue_witness:
  "\<exists>m'. TIMER1_COMPA_vect sample_config all_clear stopping_machine = Inr m' \<and>
         block_buffer stopping_machine = [sample_line] \<and>
         current_block stopping_machine = Some sample_line \<and>
         block_buffer m' = [] \<and> current_block m' = None \<and> \<not> processing_flag m' \<and>
         block_buffer (stepper_resume m') = [] \<and> \<not> stop_requested (stepper_resume m')"
  using stop_request_goes_idle_and_empties_queue [of stopping_machine sample_config all_clear]
  by (auto simp add: stopping_machine_def running_machine_def queued_machine_def
      stepper_wake_up_def idle_machine_def stepper_resume_def)

text \<open>
  Claim C5. When a safety sensor is active at an invocation, the invocation emits no pulse
  (\<^verbatim>\<open>STEPPING_PORT\<close> and Timer 2 are untouched) and the position, the counters, the event
  count, the rate and the output bits stay as they were. When the invocation gets to the
  sensor check (it is not a re-entry and no stop is pending), a limit hit, a chiller loss
  or a power loss sets \<^verbatim>\<open>stop_requested\<close> with its cause, in this order of precedence, and
  nothing else changes; with only the door open the state is left exactly as it was, so
  that the next invocation continues as if there had been no pause.
\<close>

theorem active_sensor_suspends_motion:
  assumes "SENSE_ANY sn"
  shows "\<exists>m'. TIMER1_COMPA_vect cfg sn m = Inr m' \<and>
           STEPPING_PORT m' = STEPPING_PORT m \<and> TCCR2B m' = TCCR2B m \<and>
           stepper_position m' = stepper_position m \<and>
           counter_x m' = counter_x m \<and> counter_y m' = counter_y m \<and>
           counter_z m' = counter_z m \<and>
           step_events_completed m' = step_events_completed m \<and>
           adjusted_rate m' = adjusted_rate m \<and> out_bits m' = out_bits m \<and>
           (\<not> busy m \<and> \<not> stop_requested m \<longrightarrow>
              m' = (if SENSE_LIMITS sn
                      then m\<lparr>stop_status := STATUS_STOP_LIMIT_HIT, stop_requested := True\<rparr>
                    else if SENSE_CHILLER_OFF sn
                      then m\<lparr>stop_status := STATUS_STOP_CHILLER_OFF, stop_requested := True\<rparr>
                    else if SENSE_POWER_OFF sn
                      then m\<lparr>stop_status := STATUS_STOP_POWER_OFF, stop_requested := True\<rparr>
                    else m))"
  using assms
  by (simp add: TIMER1_COMPA_vect_def Let_def stepper_request_stop_def stepper_go_idle_def
      planner_reset_block_buffer_def planner_request_position_update_def
      gcode_request_position_update_def control_laser_intensity_def)

theorem active_sensor_suspends_motion_witness:
  "TIMER1_COMPA_vect sample_config (all_clear\<lparr>SENSE_LIMITS := True, SENSE_DOOR_OPEN := True\<rparr>)
     running_machine =
     Inr (running_machine\<lparr>stop_status := STATUS_STOP_LIMIT_HIT, stop_requested := True\<rparr>) \<and>
   TIMER1_COMPA_vect sample_config (all_clear\<lparr>SENSE_DOOR_OPEN := True\<rparr>) running_machine =
     Inr running_machine"
  using active_sensor_suspends_motion
          [of "all_clear\<lparr>SENSE_LIMITS := True, SENSE_DOOR_OPEN := True\<rparr>"
              sample_config running_machine]
        active_sensor_suspends_motion
          [of "all_clear\<lparr>SENSE_DOOR_OPEN := True\<rparr>" sample_config running_machine]
  by (auto simp add: SENSE_ANY_def all_clear_def running_machine_def queued_machine_def
      stepper_wake_up_def idle_machine_def)

subsection \<open>What each part of the handler changes\<close>

lemma motion_view_updates [simp]:
  "motion_view (m\<lparr>acceleration_tick_counter := c\<rparr>) = motion_view m"
  "motion_view (m\<lparr>adjusted_rate := r\<rparr>) = motion_view m"
  "motion_view (m\<lparr>cycles_per_step_event := cy\<rparr>) = motion_view m"
  "motion_view (m\<lparr>current_block := cb\<rparr>) = motion_view m"
  "motion_view (m\<lparr>block_buffer := bb\<rparr>) = motion_view m"
  "motion_view (m\<lparr>TCCR1B := t1\<rparr>) = motion_view m"
  "motion_view (m\<lparr>OCR1A := oc\<rparr>) = motion_view m"
  "motion_view (m\<lparr>laser_intensity := li\<rparr>) = motion_view m"
  "motion_view (m\<lparr>STEPPING_PORT := sp\<rparr>) = motion_view m"
  "motion_view (m\<lparr>TCNT2 := tc\<rparr>) = motion_view m"
  "motion_view (m\<lparr>TCCR2B := t2\<rparr>) = motion_view m"
  "motion_view (m\<lparr>air_enabled := a\<rparr>) = motion_view m"
  "motion_view (m\<lparr>gas_enabled := g\<rparr>) = motion_view m"
  by (simp_all add: motion_view_def)

lemma speed_view_updates [simp]:
  "speed_view (m\<lparr>stepper_position := p\<rparr>) = speed_view m"
  "speed_view (m\<lparr>out_bits := ob\<rparr>) = speed_view m"
  "speed_view (m\<lparr>counter_x := c\<rparr>) = speed_view m"
  "speed_view (m\<lparr>counter_y := c\<rparr>) = speed_view m"
  "speed_view (m\<lparr>counter_z := c\<rparr>) = speed_view m"
  "speed_view (m\<lparr>step_events_completed := c\<rparr>) = speed_view m"
  "speed_view (m\<lparr>STEPPING_PORT := sp\<rparr>) = speed_view m"
  "speed_view (m\<lparr>TCNT2 := tc\<rparr>) = speed_view m"
  "speed_view (m\<lparr>TCCR2B := t2\<rparr>) = speed_view m"
  by (simp_all add: speed_view_def)

lemma motion_view_adjust_speed:
  "adjust_speed cfg r m = Inr m' \<Longrightarrow> motion_view m' = motion_view m"
  by (auto simp add: adjust_speed_def config_step_timer_def control_laser_intensity_def Let_def
      split: if_splits prod.splits option.splits)

lemma adjust_speed_keeps:
  "adjust_speed cfg r m = Inr m' \<Longrightarrow>
     adjusted_rate m' = adjusted_rate m \<and> current_block m' = current_block m \<and>
     block_buffer m' = block_buffer m \<and>
     acceleration_tick_counter m' = acceleration_tick_counter m"
  by (auto simp add: adjust_speed_def config_step_timer_def control_laser_intensity_def Let_def
      split: if_splits prod.splits option.splits)

lemma adjust_speed_succeeds:
  assumes "MINIMUM_STEPS_PER_MINUTE cfg \<noteq> 0" "current_block m = Some b"
  shows "\<exists>m'. adjust_speed cfg r m = Inr m'"
  using assms
  by (auto simp add: adjust_speed_def config_step_timer_def Let_def word_gt_0 split: prod.splits)

lemma acceleration_tick_snd:
  "snd (acceleration_tick cfg m) =
     m\<lparr>acceleration_tick_counter := acceleration_tick_counter (snd (acceleration_tick cfg m))\<rparr>"
  by (simp add: acceleration_tick_def Let_def)

lemma acceleration_tick_keeps [simp]:
  "motion_view (snd (acceleration_tick cfg m)) = motion_view m"
  "adjusted_rate (snd (acceleration_tick cfg m)) = adjusted_rate m"
  "current_block (snd (acceleration_tick cfg m)) = current_block m"
  "block_buffer (snd (acceleration_tick cfg m)) = block_buffer m"
  by (subst acceleration_tick_snd, simp)+

lemma speed_adjustment_cases:
  "speed_adjustment cfg b m =
     (if \<not> step_events_completed m < step_event_count b then
        Inr (m\<lparr>current_block := None, block_buffer := tl (block_buffer m)\<rparr>)
      else if step_events_completed m < accelerate_until b then
        (if fst (acceleration_tick cfg m) then
           adjust_speed cfg
             (if nominal_rate b < adjusted_rate m + rate_delta b then nominal_rate b
              else adjusted_rate m + rate_delta b)
             ((snd (acceleration_tick cfg m))\<lparr>adjusted_rate :=
                 (if nominal_rate b < adjusted_rate m + rate_delta b then nominal_rate b
                  else adjusted_rate m + rate_delta b)\<rparr>)
         else Inr (snd (acceleration_tick cfg m)))
      else if step_events_completed m = decelerate_after b then
        Inr (m\<lparr>acceleration_tick_counter := CYCLES_PER_ACCELERATION_TICK cfg div 2\<rparr>)
      else if decelerate_after b \<le> step_events_completed m then
        (if fst (acceleration_tick cfg m) then
           adjust_speed cfg
             (if adjusted_rate m - rate_delta b < final_rate b then final_rate b
              else adjusted_rate m - rate_delta b)
             ((snd (acceleration_tick cfg m))\<lparr>adjusted_rate :=
                 (if adjusted_rate m - rate_delta b < final_rate b then final_rate b
                  else adjusted_rate m - rate_delta b)\<rparr>)
         else Inr (snd (acceleration_tick cfg m)))
      else if adjusted_rate m \<noteq> nominal_rate b then
        adjust_speed cfg (nominal_rate b) (m\<lparr>adjusted_rate := nominal_rate b\<rparr>)
      else Inr m)"
proof -
  have ar: "adjusted_rate (snd (acceleration_tick cfg m)) = adjusted_rate m"
    by simp
  show ?thesis
    unfolding speed_adjustment_def planner_discard_current_block_def
    by (cases "acceleration_tick cfg m") (use ar in \<open>simp add: Let_def\<close>)
qed

lemma motion_view_speed_adjustment:
  assumes "speed_adjustment cfg b m = Inr m'"
  shows "motion_view m' = motion_view m"
  using assms unfolding speed_adjustment_cases
  by (auto split: if_splits dest!: motion_view_adjust_speed)


lemma trace_x_effect:
  "speed_view (trace_x cfg b m) = speed_view m"
  "step_events_completed (trace_x cfg b m) = step_events_completed m"
  "counter_y (trace_x cfg b m) = counter_y m"
  "counter_z (trace_x cfg b m) = counter_z m"
  "length (stepper_position (trace_x cfg b m)) = length (stepper_position m)"
  "counter_x (trace_x cfg b m) =
     (if 0 < sint (counter_x m + steps_x b)
      then counter_x m + steps_x b - step_event_count b
      else counter_x m + steps_x b)"
  "out_bits (trace_x cfg b m) =
     (if 0 < sint (counter_x m + steps_x b)
      then out_bits m OR push_bit (X_STEP_BIT cfg) 1 else out_bits m)"
  by (simp_all add: trace_x_def move_position_def Let_def speed_view_def)

lemma trace_y_effect:
  "speed_view (trace_y cfg b m) = speed_view m"
  "step_events_completed (trace_y cfg b m) = step_events_completed m"
  "counter_x (trace_y cfg b m) = counter_x m"
  "counter_z (trace_y cfg b m) = counter_z m"
  "length (stepper_position (trace_y cfg b m)) = length (stepper_position m)"
  "counter_y (trace_y cfg b m) =
     (if 0 < sint (counter_y m + steps_y b)
      then counter_y m + steps_y b - step_event_count b
      else counter_y m + steps_y b)"
  "out_bits (trace_y cfg b m) =
     (if 0 < sint (counter_y m + steps_y b)
      then out_bits m OR push_bit (Y_STEP_BIT cfg) 1 else out_bits m)"
  by (simp_all add: trace_y_def move_position_def Let_def speed_view_def)

lemma trace_z_effect:
  "speed_view (trace_z cfg b m) = speed_view m"
  "step_events_completed (trace_z cfg b m) = step_events_completed m"
  "counter_x (trace_z cfg b m) = counter_x m"
  "counter_y (trace_z cfg b m) = counter_y m"
  "length (stepper_position (trace_z cfg b m)) = length (stepper_position m)"
  "counter_z (trace_z cfg b m) =
     (if 0 < sint (counter_z m + steps_z b)
      then counter_z m + steps_z b - step_event_count b
      else counter_z m + steps_z b)"
  "out_bits (trace_z cfg b m) =
     (if 0 < sint (counter_z m + steps_z b)
      then out_bits m OR push_bit (Z_STEP_BIT cfg) 1 else out_bits m)"
  by (simp_all add: trace_z_def move_position_def Let_def speed_view_def)

lemma trace_line_effect:
  "speed_view (trace_line cfg b m) = speed_view m"
  "step_events_completed (trace_line cfg b m) = step_events_completed m + 1"
  "length (stepper_position (trace_line cfg b m)) = length (stepper_position m)"
  "counter_x (trace_line cfg b m) =
     (if 0 < sint (counter_x m + steps_x b)
      then counter_x m + steps_x b - step_event_count b else counter_x m + steps_x b)"
  "counter_y (trace_line cfg b m) =
     (if 0 < sint (counter_y m + steps_y b)
      then counter_y m + steps_y b - step_event_count b else counter_y m + steps_y b)"
  "counter_z (trace_line cfg b m) =
     (if 0 < sint (counter_z m + steps_z b)
      then counter_z m + steps_z b - step_event_count b else counter_z m + steps_z b)"
  by (simp_all add: trace_line_def Let_def trace_x_effect trace_y_effect trace_z_effect)

lemma trace_line_out_bits:
  "out_bits (trace_line cfg b m) XOR INVERT_MASK cfg =
     ((direction_bits b
        OR (if 0 < sint (counter_x m + steps_x b) then push_bit (X_STEP_BIT cfg) 1 else 0))
        OR (if 0 < sint (counter_y m + steps_y b) then push_bit (Y_STEP_BIT cfg) 1 else 0))
        OR (if 0 < sint (counter_z m + steps_z b) then push_bit (Z_STEP_BIT cfg) 1 else 0)"
  by (simp add: trace_line_def Let_def trace_x_effect trace_y_effect trace_z_effect
      bit.xor_self xor.assoc)

lemma speed_adjustment_succeeds:
  assumes "MINIMUM_STEPS_PER_MINUTE cfg \<noteq> 0" "current_block m = Some b"
  shows "\<exists>m'. speed_adjustment cfg b m = Inr m'"
  unfolding speed_adjustment_cases
  using adjust_speed_succeeds[OF assms(1), where b = b] assms(2)
  by simp

lemma speed_adjustment_queue:
  assumes "speed_adjustment cfg b m = Inr m'"
  shows "current_block m' =
           (if step_events_completed m < step_event_count b then current_block m else None)"
    and "block_buffer m' =
           (if step_events_completed m < step_event_count b then block_buffer m
            else tl (block_buffer m))"
  using assms unfolding speed_adjustment_cases
  by (auto split: if_splits dest!: adjust_speed_keeps)

lemma speed_adjustment_rate:
  assumes "speed_adjustment cfg b m = Inr m'"
  shows "rate_step b (step_events_completed m) (adjusted_rate m) (adjusted_rate m')"
  using assms unfolding speed_adjustment_cases rate_step_def
  by (auto split: if_splits dest!: adjust_speed_keeps)


lemma view_projections:
  "motion_view m' = motion_view m \<Longrightarrow>
     stepper_position m' = stepper_position m \<and> out_bits m' = out_bits m \<and>
     counter_x m' = counter_x m \<and> counter_y m' = counter_y m \<and> counter_z m' = counter_z m \<and>
     step_events_completed m' = step_events_completed m \<and>
     stop_requested m' = stop_requested m \<and> busy m' = busy m"
  "speed_view m' = speed_view m \<Longrightarrow>
     adjusted_rate m' = adjusted_rate m \<and> current_block m' = current_block m \<and>
     block_buffer m' = block_buffer m \<and> stop_requested m' = stop_requested m \<and>
     busy m' = busy m"
  by (simp_all add: motion_view_def speed_view_def)

lemma process_line_event:
  assumes "MINIMUM_STEPS_PER_MINUTE cfg \<noteq> 0"
    and "current_block m = Some b" "type b = TYPE_LINE" "\<not> stop_requested m"
  shows "\<exists>m'. process_block cfg b m = Inr m' \<and>
           after_line_event cfg b (line_view m) (m'\<lparr>busy := False\<rparr>) \<and>
           length (stepper_position m') = length (stepper_position m)"
proof -
  let ?t = "trace_line cfg b m"
  note tv = view_projections(2)[OF trace_line_effect(1)[of cfg b m]]
  from tv assms(2) have cb: "current_block ?t = Some b" by simp
  from speed_adjustment_succeeds[OF assms(1) cb]
  obtain m' where m': "speed_adjustment cfg b ?t = Inr m'" by blast
  note mv = view_projections(1)[OF motion_view_speed_adjustment[OF m']]
  note q = speed_adjustment_queue[OF m']
  note r = speed_adjustment_rate[OF m']
  have ob: "out_bits (m'\<lparr>busy := False\<rparr>) XOR INVERT_MASK cfg =
              out_bits ?t XOR INVERT_MASK cfg"
    using mv by simp
  have "after_line_event cfg b (line_view m) (m'\<lparr>busy := False\<rparr>)"
    unfolding after_line_event_def line_view_def
    using mv tv q r assms(2,4) cb
    by (simp add: ob[simplified] trace_line_out_bits trace_line_effect next_counter_def)
  moreover have "length (stepper_position m') = length (stepper_position m)"
    using mv by (simp add: trace_line_effect)
  ultimately show ?thesis using m' assms(3) by (simp add: process_block_def)
qed

lemma pulse_steppers_views [simp]:
  "motion_view (pulse_steppers cfg m) = motion_view m"
  "speed_view (pulse_steppers cfg m) = speed_view m"
  "line_view (pulse_steppers cfg m) = line_view m"
  "current_block (pulse_steppers cfg m) = current_block m"
  "block_buffer (pulse_steppers cfg m) = block_buffer m"
  "stop_requested (pulse_steppers cfg m) = stop_requested m"
  "stepper_position (pulse_steppers cfg m) = stepper_position m"
  by (simp_all add: pulse_steppers_def Let_def line_view_def motion_view_def speed_view_def)

lemma line_view_updates [simp]:
  "line_view (m\<lparr>busy := v\<rparr>) = line_view m"
  "line_view (m\<lparr>current_block := cb\<rparr>) = line_view m"
  by (simp_all add: line_view_def)

lemma start_line_block_effect:
  assumes "MINIMUM_STEPS_PER_MINUTE cfg \<noteq> 0" "current_block m = Some b"
  shows "\<exists>m'. start_line_block cfg b m = Inr m' \<and>
           line_view m' = (- (drop_bit 1 (step_event_count b)), - (drop_bit 1 (step_event_count b)),
                           - (drop_bit 1 (step_event_count b)), 0, initial_rate b, block_buffer m) \<and>
           current_block m' = Some b \<and> stop_requested m' = stop_requested m \<and>
           stepper_position m' = stepper_position m"
proof -
  let ?m0 = "m\<lparr>adjusted_rate := initial_rate b,
               acceleration_tick_counter := CYCLES_PER_ACCELERATION_TICK cfg div 2\<rparr>"
  have "current_block ?m0 = Some b" using assms(2) by simp
  from adjust_speed_succeeds[OF assms(1) this]
  obtain m1 where m1: "adjust_speed cfg (initial_rate b) ?m0 = Inr m1" by blast
  note k = adjust_speed_keeps[OF m1]
  note v = view_projections(1)[OF motion_view_adjust_speed[OF m1]]
  show ?thesis
    using m1 k v assms(2)
    by (simp add: start_line_block_def Let_def line_view_def motion_view_def)
qed

lemma isr_line_running:
  assumes "MINIMUM_STEPS_PER_MINUTE cfg \<noteq> 0" "type b = TYPE_LINE"
    and "\<not> busy m" "\<not> stop_requested m" "current_block m = Some b"
  shows "\<exists>m'. TIMER1_COMPA_vect cfg all_clear m = Inr m' \<and>
           after_line_event cfg b (line_view m) m'"
proof -
  let ?m = "pulse_steppers cfg (m\<lparr>busy := True\<rparr>)"
  have a: "current_block ?m = Some b" "\<not> stop_requested ?m" "line_view ?m = line_view m"
    using assms(4,5) by simp_all
  from process_line_event[OF assms(1) a(1) assms(2) a(2)] a(3)
  obtain m' where "process_block cfg b ?m = Inr m'"
    "after_line_event cfg b (line_view m) (m'\<lparr>busy := False\<rparr>)" by auto
  then show ?thesis
    using assms(3,4) a(1)
    by (simp add: TIMER1_COMPA_vect_def Let_def SENSE_ANY_def all_clear_def)
qed

lemma isr_line_start:
  assumes "MINIMUM_STEPS_PER_MINUTE cfg \<noteq> 0" "type b = TYPE_LINE"
    and "\<not> busy m" "\<not> stop_requested m" "current_block m = None" "block_buffer m = b # q"
  shows "\<exists>m'. TIMER1_COMPA_vect cfg all_clear m = Inr m' \<and>
           after_line_event cfg b
             (- (drop_bit 1 (step_event_count b)), - (drop_bit 1 (step_event_count b)),
              - (drop_bit 1 (step_event_count b)), 0, initial_rate b, b # q) m'"
proof -
  let ?m = "(pulse_steppers cfg (m\<lparr>busy := True\<rparr>))\<lparr>current_block := Some b\<rparr>"
  have a: "current_block ?m = Some b" "\<not> stop_requested ?m" "block_buffer ?m = b # q"
    using assms(4,6) by simp_all
  from start_line_block_effect[OF assms(1) a(1)] a
  obtain ms where ms: "start_line_block cfg b ?m = Inr ms"
    "line_view ms = (- (drop_bit 1 (step_event_count b)), - (drop_bit 1 (step_event_count b)),
                     - (drop_bit 1 (step_event_count b)), 0, initial_rate b, b # q)"
    "current_block ms = Some b" "\<not> stop_requested ms" by auto
  from process_line_event[OF assms(1) ms(3) assms(2) ms(4)] ms(2)
  obtain m' where m': "process_block cfg b ms = Inr m'"
    "after_line_event cfg b
       (- (drop_bit 1 (step_event_count b)), - (drop_bit 1 (step_event_count b)),
        - (drop_bit 1 (step_event_count b)), 0, initial_rate b, b # q) (m'\<lparr>busy := False\<rparr>)"
    by auto
  have g: "planner_get_current_block (pulse_steppers cfg (m\<lparr>busy := True\<rparr>)) = Some b"
    using assms(6) by (simp add: planner_get_current_block_def)
  show ?thesis
    using assms(2,3,4,5) ms(1) m' g
    by (simp add: TIMER1_COMPA_vect_def Let_def SENSE_ANY_def all_clear_def)
qed


lemma start_line_block_position:
  assumes "start_line_block cfg b m = Inr m'"
  shows "stepper_position m' = stepper_position m"
proof -
  from assms obtain m1 where
    m1: "adjust_speed cfg (initial_rate b)
           (m\<lparr>adjusted_rate := initial_rate b,
              acceleration_tick_counter := CYCLES_PER_ACCELERATION_TICK cfg div 2\<rparr>) = Inr m1"
    and e: "m' = m1\<lparr>counter_x := - (drop_bit 1 (step_event_count b)),
                    counter_y := - (drop_bit 1 (step_event_count b)),
                    counter_z := - (drop_bit 1 (step_event_count b)),
                    step_events_completed := 0\<rparr>"
    by (auto simp add: start_line_block_def Let_def split: sum.splits)
  from view_projections(1)[OF motion_view_adjust_speed[OF m1]] e show ?thesis
    by (simp add: motion_view_def)
qed

lemma process_block_position:
  assumes "process_block cfg b m = Inr m'"
  shows "length (stepper_position m') = length (stepper_position m)"
proof (cases "type b")
  case TYPE_LINE
  with assms have "speed_adjustment cfg b (trace_line cfg b m) = Inr m'"
    by (simp add: process_block_def)
  from view_projections(1)[OF motion_view_speed_adjustment[OF this]] show ?thesis
    by (simp add: trace_line_effect)
qed (use assms in \<open>auto simp add: process_block_def planner_discard_current_block_def
       control_air_def control_gas_def\<close>)

lemma isr_position_length:
  assumes "TIMER1_COMPA_vect cfg sn m = Inr m'"
  shows "length (stepper_position m') = length (stepper_position m)"
proof -
  let ?m = "pulse_steppers cfg (m\<lparr>busy := True\<rparr>)"
  have p: "stepper_position ?m = stepper_position m" by simp
  consider (early) "busy m \<or> stop_requested m \<or> SENSE_ANY sn"
    | (run) b where "\<not> busy m" "\<not> stop_requested m" "\<not> SENSE_ANY sn" "current_block m = Some b"
    | (fetch) "\<not> busy m" "\<not> stop_requested m" "\<not> SENSE_ANY sn" "current_block m = None"
    by (cases "current_block m") auto
  then show ?thesis
  proof cases
    case early
    with assms show ?thesis
      by (auto simp add: TIMER1_COMPA_vect_def Let_def stepper_go_idle_def
          control_laser_intensity_def planner_reset_block_buffer_def
          planner_request_position_update_def gcode_request_position_update_def
          stepper_request_stop_def split: if_splits)
  next
    case run
    with assms obtain m1 where "process_block cfg b ?m = Inr m1" "m' = m1\<lparr>busy := False\<rparr>"
      by (auto simp add: TIMER1_COMPA_vect_def Let_def split: sum.splits)
    with process_block_position[of cfg b ?m m1] p show ?thesis by simp
  next
    case fetch
    show ?thesis
    proof (cases "planner_get_current_block ?m")
      case None
      with assms fetch show ?thesis
        by (auto simp add: TIMER1_COMPA_vect_def Let_def stepper_go_idle_def
            control_laser_intensity_def)
    next
      case (Some b)
      let ?mb = "?m\<lparr>current_block := Some b\<rparr>"
      from assms fetch Some obtain ms m1 where
        s: "(if type b = TYPE_LINE then start_line_block cfg b ?mb else Inr ?mb) = Inr ms"
        and pb: "process_block cfg b ms = Inr m1" and e: "m' = m1\<lparr>busy := False\<rparr>"
        by (auto simp add: TIMER1_COMPA_vect_def Let_def split: sum.splits)
      have "stepper_position ms = stepper_position m"
        using s start_line_block_position[of cfg b ?mb ms] by (auto split: if_splits)
      with process_block_position[OF pb] e show ?thesis by simp
    qed
  qed
qed

lemma stepper_synchronize_position_length:
  "stepper_synchronize cfg sns m = Some m' \<Longrightarrow>
     length (stepper_position m') = length (stepper_position m)"
proof (induction sns arbitrary: m)
  case Nil
  then show ?case by (simp split: if_splits)
next
  case (Cons sn sns)
  show ?case
  proof (cases "processing_flag m")
    case True
    with Cons.prems obtain m1 where
      "TIMER1_COMPA_vect cfg sn m = Inr m1" "stepper_synchronize cfg sns m1 = Some m'"
      by (auto split: sum.splits)
    with Cons.IH[of m1] isr_position_length[of cfg sn m m1] show ?thesis by simp
  next
    case False
    with Cons.prems show ?thesis by simp
  qed
qed


subsection \<open>The homing cycle\<close>

lemma homing_loop_Cons_active:
  assumes "x_axis (check_limits cfg rv pin h) \<or> y_axis (check_limits cfg rv pin h)
           \<or> z_axis (check_limits cfg rv pin h)"
  shows "fst (homing_loop cfg rv sd (pin # pins) h m) =
         homing_pulse cfg sd (homing_out_bits (check_limits cfg rv pin h)) m
         # fst (homing_loop cfg rv sd pins (check_limits cfg rv pin h)
                 (step_axes cfg (homing_out_bits (check_limits cfg rv pin h)) m))"
  using assms by (simp add: Let_def split: prod.splits)

lemma homing_loop_Cons_done:
  assumes "\<not> (x_axis (check_limits cfg rv pin h) \<or> y_axis (check_limits cfg rv pin h)
           \<or> z_axis (check_limits cfg rv pin h))"
  shows "homing_loop cfg rv sd (pin # pins) h m = ([], Some (m, pins))"
  using assms by (simp add: Let_def)

lemma homing_pulse_fields [simp]:
  "pulse_bits (homing_pulse cfg sd bits m) = bits AND STEPPING_MASK cfg"
  "pulse_high_us (homing_pulse cfg sd bits m) = CONFIG_PULSE_MICROSECONDS cfg"
  "pulse_low_us (homing_pulse cfg sd bits m) = sd"
  by (simp_all add: homing_pulse_def)

text \<open>
  The log and the port agree: a line is raised by the first write of a pulse and lowered
  by the second one exactly when its bit is in the operand of the two writes.
\<close>

lemma homing_pulse_port:
  "bit (port_raised (homing_pulse cfg sd bits m)) n \<and>
   \<not> bit (port_toggled (homing_pulse cfg sd bits m)) n
     \<longleftrightarrow> bit (pulse_bits (homing_pulse cfg sd bits m)) n"
  by (auto simp add: homing_pulse_def step_axes_def Let_def bit_simps)

lemma homing_loop_port:
  "p \<in> set (fst (homing_loop cfg rv sd pins h m)) \<Longrightarrow>
     bit (port_raised p) n \<and> \<not> bit (port_toggled p) n \<longleftrightarrow> bit (pulse_bits p) n"
proof (induction pins arbitrary: h m)
  case Nil
  then show ?case by simp
next
  case (Cons pin pins)
  let ?h = "check_limits cfg rv pin h"
  show ?case
  proof (cases "x_axis ?h \<or> y_axis ?h \<or> z_axis ?h")
    case True
    from Cons.prems have
      "p = homing_pulse cfg sd (homing_out_bits ?h) m \<or>
       p \<in> set (fst (homing_loop cfg rv sd pins ?h (step_axes cfg (homing_out_bits ?h) m)))"
      unfolding homing_loop_Cons_active[OF True] by auto
    then show ?thesis using Cons.IH homing_pulse_port by blast
  next
    case False
    then show ?thesis using Cons.prems by (simp add: homing_loop_Cons_done)
  qed
qed

lemma check_limits_x_inactive:
  assumes "\<not> x_axis h" "X_STEP_BIT cfg \<noteq> Y_STEP_BIT cfg"
  shows "\<not> x_axis (check_limits cfg rv pin h)"
    and "bit (homing_out_bits (check_limits cfg rv pin h)) (X_STEP_BIT cfg) =
         bit (homing_out_bits h) (X_STEP_BIT cfg)"
  using assms by (auto simp add: check_limits_def Let_def bit_simps)

lemma check_limits_x_counting:
  assumes "x_axis h" "\<not> bit (read_limit_bits cfg rv pin) (X1_LIMIT_BIT cfg)"
    "x_overshoot_count h \<noteq> 0" "X_STEP_BIT cfg \<noteq> Y_STEP_BIT cfg"
  shows "x_axis (check_limits cfg rv pin h)"
    and "x_overshoot_count (check_limits cfg rv pin h) = x_overshoot_count h - 1"
    and "bit (homing_out_bits (check_limits cfg rv pin h)) (X_STEP_BIT cfg) =
         bit (homing_out_bits h) (X_STEP_BIT cfg)"
  using assms by (auto simp add: check_limits_def Let_def bit_simps)

lemma check_limits_x_done:
  assumes "x_axis h" "\<not> bit (read_limit_bits cfg rv pin) (X1_LIMIT_BIT cfg)"
    "x_overshoot_count h = 0" "X_STEP_BIT cfg \<noteq> Y_STEP_BIT cfg"
    "bit (homing_out_bits h) (X_STEP_BIT cfg)"
  shows "\<not> x_axis (check_limits cfg rv pin h)"
    and "\<not> bit (homing_out_bits (check_limits cfg rv pin h)) (X_STEP_BIT cfg)"
  using assms by (auto simp add: check_limits_def Let_def bit_simps dest: bit_imp_possible_bit)

lemma x_axis_off_no_pulse:
  assumes "X_STEP_BIT cfg \<noteq> Y_STEP_BIT cfg"
  shows "\<not> x_axis h \<Longrightarrow> \<not> bit (homing_out_bits h) (X_STEP_BIT cfg) \<Longrightarrow>
     p \<in> set (fst (homing_loop cfg rv sd pins h m)) \<Longrightarrow> \<not> bit (pulse_bits p) (X_STEP_BIT cfg)"
proof (induction pins arbitrary: h m)
  case Nil
  then show ?case by simp
next
  case (Cons pin pins)
  let ?h = "check_limits cfg rv pin h"
  have a: "\<not> x_axis ?h" "\<not> bit (homing_out_bits ?h) (X_STEP_BIT cfg)"
    using check_limits_x_inactive[OF Cons.prems(1) assms] Cons.prems(2) by simp_all
  show ?case
  proof (cases "x_axis ?h \<or> y_axis ?h \<or> z_axis ?h")
    case True
    from Cons.prems(3) have
      "pulse_bits p = homing_out_bits ?h AND STEPPING_MASK cfg \<or>
       p \<in> set (fst (homing_loop cfg rv sd pins ?h (step_axes cfg (homing_out_bits ?h) m)))"
      unfolding homing_loop_Cons_active[OF True] by auto
    then show ?thesis using a Cons.IH[OF a] by (auto simp add: bit_simps)
  next
    case False
    then show ?thesis using Cons.prems(3) by (simp add: homing_loop_Cons_done)
  qed
qed

lemma x_axis_overshoot:
  assumes "X_STEP_BIT cfg \<noteq> Y_STEP_BIT cfg" "bit (STEPPING_MASK cfg) (X_STEP_BIT cfg)"
  shows "x_axis h \<Longrightarrow> bit (homing_out_bits h) (X_STEP_BIT cfg) \<Longrightarrow>
     \<forall>r \<in> set (take (Suc (unat (x_overshoot_count h))) pins).
        \<not> bit (read_limit_bits cfg rv r) (X1_LIMIT_BIT cfg) \<Longrightarrow>
     min (length pins) (unat (x_overshoot_count h)) \<le> length (fst (homing_loop cfg rv sd pins h m)) \<and>
     (\<forall>i < length (fst (homing_loop cfg rv sd pins h m)).
        bit (pulse_bits (fst (homing_loop cfg rv sd pins h m) ! i)) (X_STEP_BIT cfg)
          \<longleftrightarrow> i < unat (x_overshoot_count h))"
proof (induction pins arbitrary: h m)
  case Nil
  then show ?case by simp
next
  case (Cons pin pins)
  let ?h = "check_limits cfg rv pin h"
  let ?m = "step_axes cfg (homing_out_bits ?h) m"
  have sensed: "\<not> bit (read_limit_bits cfg rv pin) (X1_LIMIT_BIT cfg)"
    using Cons.prems(3) by simp
  show ?case
  proof (cases "x_overshoot_count h = 0")
    case True
    have a: "\<not> x_axis ?h" "\<not> bit (homing_out_bits ?h) (X_STEP_BIT cfg)"
      using check_limits_x_done[OF Cons.prems(1) sensed True assms(1) Cons.prems(2)] by simp_all
    have "\<not> bit (pulse_bits p) (X_STEP_BIT cfg)"
      if "p \<in> set (fst (homing_loop cfg rv sd (pin # pins) h m))" for p
    proof (cases "x_axis ?h \<or> y_axis ?h \<or> z_axis ?h")
      case True
      from that have
        "pulse_bits p = homing_out_bits ?h AND STEPPING_MASK cfg \<or>
         p \<in> set (fst (homing_loop cfg rv sd pins ?h ?m))"
        unfolding homing_loop_Cons_active[OF True] by auto
      then show ?thesis using a x_axis_off_no_pulse[OF assms(1) a] by (auto simp add: bit_simps)
    next
      case False
      then show ?thesis using that by (simp add: homing_loop_Cons_done)
    qed
    then show ?thesis using True by simp
  next
    case False
    have a: "x_axis ?h" "x_overshoot_count ?h = x_overshoot_count h - 1"
      "bit (homing_out_bits ?h) (X_STEP_BIT cfg)"
      using check_limits_x_counting[OF Cons.prems(1) sensed False assms(1)] Cons.prems(2)
      by simp_all
    have c: "unat (x_overshoot_count ?h) = unat (x_overshoot_count h) - 1"
      "0 < unat (x_overshoot_count h)"
      using False by (simp_all add: a(2) unat_minus_one unat_gt_0)
    have "\<forall>r \<in> set (take (Suc (unat (x_overshoot_count ?h))) pins).
            \<not> bit (read_limit_bits cfg rv r) (X1_LIMIT_BIT cfg)"
      using Cons.prems(3) c by simp
    from Cons.IH[OF a(1) a(3) this, of ?m] 
    have ih: "min (length pins) (unat (x_overshoot_count h) - 1)
                \<le> length (fst (homing_loop cfg rv sd pins ?h ?m))"
      "\<And>i. i < length (fst (homing_loop cfg rv sd pins ?h ?m)) \<Longrightarrow>
         bit (pulse_bits (fst (homing_loop cfg rv sd pins ?h ?m) ! i)) (X_STEP_BIT cfg)
           \<longleftrightarrow> i < unat (x_overshoot_count h) - 1"
      unfolding c by simp_all
    have e: "fst (homing_loop cfg rv sd (pin # pins) h m) =
         homing_pulse cfg sd (homing_out_bits ?h) m
         # fst (homing_loop cfg rv sd pins ?h ?m)"
      using a(1) by (intro homing_loop_Cons_active) simp
    show ?thesis
      unfolding e
    proof (intro conjI allI impI)
      show "min (length (pin # pins)) (unat (x_overshoot_count h))
              \<le> length (homing_pulse cfg sd (homing_out_bits ?h) m
                 # fst (homing_loop cfg rv sd pins ?h ?m))"
        using ih(1) c(2) by simp
    next
      fix i
      assume "i < length (homing_pulse cfg sd (homing_out_bits ?h) m
                 # fst (homing_loop cfg rv sd pins ?h ?m))"
      then show "bit (pulse_bits ((homing_pulse cfg sd (homing_out_bits ?h) m
                 # fst (homing_loop cfg rv sd pins ?h ?m)) ! i)) (X_STEP_BIT cfg)
              \<longleftrightarrow> i < unat (x_overshoot_count h)"
        using ih(2)[of "i - 1"] a(3) assms(2) c(2)
        by (cases i) (auto simp add: bit_simps)
    qed
  qed
qed

lemma check_limits_y_inactive:
  assumes "\<not> y_axis h" "Y_STEP_BIT cfg \<noteq> X_STEP_BIT cfg"
  shows "\<not> y_axis (check_limits cfg rv pin h)"
    and "bit (homing_out_bits (check_limits cfg rv pin h)) (Y_STEP_BIT cfg) =
         bit (homing_out_bits h) (Y_STEP_BIT cfg)"
  using assms by (auto simp add: check_limits_def Let_def bit_simps)

lemma check_limits_y_counting:
  assumes "y_axis h" "\<not> bit (read_limit_bits cfg rv pin) (Y1_LIMIT_BIT cfg)"
    "y_overshoot_count h \<noteq> 0" "Y_STEP_BIT cfg \<noteq> X_STEP_BIT cfg"
  shows "y_axis (check_limits cfg rv pin h)"
    and "y_overshoot_count (check_limits cfg rv pin h) = y_overshoot_count h - 1"
    and "bit (homing_out_bits (check_limits cfg rv pin h)) (Y_STEP_BIT cfg) =
         bit (homing_out_bits h) (Y_STEP_BIT cfg)"
  using assms by (auto simp add: check_limits_def Let_def bit_simps)

lemma check_limits_y_done:
  assumes "y_axis h" "\<not> bit (read_limit_bits cfg rv pin) (Y1_LIMIT_BIT cfg)"
    "y_overshoot_count h = 0" "Y_STEP_BIT cfg \<noteq> X_STEP_BIT cfg"
    "bit (homing_out_bits h) (Y_STEP_BIT cfg)"
  shows "\<not> y_axis (check_limits cfg rv pin h)"
    and "\<not> bit (homing_out_bits (check_limits cfg rv pin h)) (Y_STEP_BIT cfg)"
  using assms by (auto simp add: check_limits_def Let_def bit_simps dest: bit_imp_possible_bit)

lemma y_axis_off_no_pulse:
  assumes "Y_STEP_BIT cfg \<noteq> X_STEP_BIT cfg"
  shows "\<not> y_axis h \<Longrightarrow> \<not> bit (homing_out_bits h) (Y_STEP_BIT cfg) \<Longrightarrow>
     p \<in> set (fst (homing_loop cfg rv sd pins h m)) \<Longrightarrow> \<not> bit (pulse_bits p) (Y_STEP_BIT cfg)"
proof (induction pins arbitrary: h m)
  case Nil
  then show ?case by simp
next
  case (Cons pin pins)
  let ?h = "check_limits cfg rv pin h"
  have a: "\<not> y_axis ?h" "\<not> bit (homing_out_bits ?h) (Y_STEP_BIT cfg)"
    using check_limits_y_inactive[OF Cons.prems(1) assms] Cons.prems(2) by simp_all
  show ?case
  proof (cases "x_axis ?h \<or> y_axis ?h \<or> z_axis ?h")
    case True
    from Cons.prems(3) have
      "pulse_bits p = homing_out_bits ?h AND STEPPING_MASK cfg \<or>
       p \<in> set (fst (homing_loop cfg rv sd pins ?h (step_axes cfg (homing_out_bits ?h) m)))"
      unfolding homing_loop_Cons_active[OF True] by auto
    then show ?thesis using a Cons.IH[OF a] by (auto simp add: bit_simps)
  next
    case False
    then show ?thesis using Cons.prems(3) by (simp add: homing_loop_Cons_done)
  qed
qed

lemma y_axis_overshoot:
  assumes "Y_STEP_BIT cfg \<noteq> X_STEP_BIT cfg" "bit (STEPPING_MASK cfg) (Y_STEP_BIT cfg)"
  shows "y_axis h \<Longrightarrow> bit (homing_out_bits h) (Y_STEP_BIT cfg) \<Longrightarrow>
     \<forall>r \<in> set (take (Suc (unat (y_overshoot_count h))) pins).
        \<not> bit (read_limit_bits cfg rv r) (Y1_LIMIT_BIT cfg) \<Longrightarrow>
     min (length pins) (unat (y_overshoot_count h)) \<le> length (fst (homing_loop cfg rv sd pins h m)) \<and>
     (\<forall>i < length (fst (homing_loop cfg rv sd pins h m)).
        bit (pulse_bits (fst (homing_loop cfg rv sd pins h m) ! i)) (Y_STEP_BIT cfg)
          \<longleftrightarrow> i < unat (y_overshoot_count h))"
proof (induction pins arbitrary: h m)
  case Nil
  then show ?case by simp
next
  case (Cons pin pins)
  let ?h = "check_limits cfg rv pin h"
  let ?m = "step_axes cfg (homing_out_bits ?h) m"
  have sensed: "\<not> bit (read_limit_bits cfg rv pin) (Y1_LIMIT_BIT cfg)"
    using Cons.prems(3) by simp
  show ?case
  proof (cases "y_overshoot_count h = 0")
    case True
    have a: "\<not> y_axis ?h" "\<not> bit (homing_out_bits ?h) (Y_STEP_BIT cfg)"
      using check_limits_y_done[OF Cons.prems(1) sensed True assms(1) Cons.prems(2)] by simp_all
    have "\<not> bit (pulse_bits p) (Y_STEP_BIT cfg)"
      if "p \<in> set (fst (homing_loop cfg rv sd (pin # pins) h m))" for p
    proof (cases "x_axis ?h \<or> y_axis ?h \<or> z_axis ?h")
      case True
      from that have
        "pulse_bits p = homing_out_bits ?h AND STEPPING_MASK cfg \<or>
         p \<in> set (fst (homing_loop cfg rv sd pins ?h ?m))"
        unfolding homing_loop_Cons_active[OF True] by auto
      then show ?thesis using a y_axis_off_no_pulse[OF assms(1) a] by (auto simp add: bit_simps)
    next
      case False
      then show ?thesis using that by (simp add: homing_loop_Cons_done)
    qed
    then show ?thesis using True by simp
  next
    case False
    have a: "y_axis ?h" "y_overshoot_count ?h = y_overshoot_count h - 1"
      "bit (homing_out_bits ?h) (Y_STEP_BIT cfg)"
      using check_limits_y_counting[OF Cons.prems(1) sensed False assms(1)] Cons.prems(2)
      by simp_all
    have c: "unat (y_overshoot_count ?h) = unat (y_overshoot_count h) - 1"
      "0 < unat (y_overshoot_count h)"
      using False by (simp_all add: a(2) unat_minus_one unat_gt_0)
    have "\<forall>r \<in> set (take (Suc (unat (y_overshoot_count ?h))) pins).
            \<not> bit (read_limit_bits cfg rv r) (Y1_LIMIT_BIT cfg)"
      using Cons.prems(3) c by simp
    from Cons.IH[OF a(1) a(3) this, of ?m] 
    have ih: "min (length pins) (unat (y_overshoot_count h) - 1)
                \<le> length (fst (homing_loop cfg rv sd pins ?h ?m))"
      "\<And>i. i < length (fst (homing_loop cfg rv sd pins ?h ?m)) \<Longrightarrow>
         bit (pulse_bits (fst (homing_loop cfg rv sd pins ?h ?m) ! i)) (Y_STEP_BIT cfg)
           \<longleftrightarrow> i < unat (y_overshoot_count h) - 1"
      unfolding c by simp_all
    have e: "fst (homing_loop cfg rv sd (pin # pins) h m) =
         homing_pulse cfg sd (homing_out_bits ?h) m
         # fst (homing_loop cfg rv sd pins ?h ?m)"
      using a(1) by (intro homing_loop_Cons_active) simp
    show ?thesis
      unfolding e
    proof (intro conjI allI impI)
      show "min (length (pin # pins)) (unat (y_overshoot_count h))
              \<le> length (homing_pulse cfg sd (homing_out_bits ?h) m
                 # fst (homing_loop cfg rv sd pins ?h ?m))"
        using ih(1) c(2) by simp
    next
      fix i
      assume "i < length (homing_pulse cfg sd (homing_out_bits ?h) m
                 # fst (homing_loop cfg rv sd pins ?h ?m))"
      then show "bit (pulse_bits ((homing_pulse cfg sd (homing_out_bits ?h) m
                 # fst (homing_loop cfg rv sd pins ?h ?m)) ! i)) (Y_STEP_BIT cfg)
              \<longleftrightarrow> i < unat (y_overshoot_count h)"
        using ih(2)[of "i - 1"] a(3) assms(2) c(2)
        by (cases i) (auto simp add: bit_simps)
    qed
  qed
qed


lemma homing_initial_bits_x:
  assumes "X_STEP_BIT cfg < 8" "\<not> bit (DIRECTION_MASK cfg) (X_STEP_BIT cfg)"
    "\<not> bit (INVERT_MASK cfg) (X_STEP_BIT cfg)"
  shows "bit (homing_initial_bits cfg True y z rv) (X_STEP_BIT cfg)"
  using assms by (simp add: homing_initial_bits_def Let_def bit_simps)

lemma homing_initial_bits_y:
  assumes "Y_STEP_BIT cfg < 8" "\<not> bit (DIRECTION_MASK cfg) (Y_STEP_BIT cfg)"
    "\<not> bit (INVERT_MASK cfg) (Y_STEP_BIT cfg)"
  shows "bit (homing_initial_bits cfg x True z rv) (Y_STEP_BIT cfg)"
  using assms by (simp add: homing_initial_bits_def Let_def bit_simps)

lemma homing_cycle_pulses:
  "fst (homing_cycle cfg x y z rv us pins m) =
     fst (homing_loop cfg rv (us - CONFIG_PULSE_MICROSECONDS cfg) pins
            \<lparr>x_axis = x, y_axis = y, z_axis = z,
              homing_out_bits = homing_initial_bits cfg x y z rv,
              x_overshoot_count = 6, y_overshoot_count = 6\<rparr>
            (m\<lparr>STEPPING_PORT :=
                 (STEPPING_PORT m AND NOT (DIRECTION_MASK cfg))
                   OR (homing_initial_bits cfg x y z rv AND DIRECTION_MASK cfg)\<rparr>))"
  by (simp add: homing_cycle_def Let_def split: prod.splits option.splits)

lemma homing_cycle_port:
  assumes "p \<in> set (fst (homing_cycle cfg x y z rv us pins m))"
  shows "bit (port_raised p) n \<and> \<not> bit (port_toggled p) n \<longleftrightarrow> bit (pulse_bits p) n"
  using assms homing_loop_port unfolding homing_cycle_pulses by blast

text \<open>
  The overshoot on a step line that is not inverted. An axis whose limit switch reads as
  triggered from the first read of a homing phase on (in a reverse cycle: reads as
  released) is stepped by exactly the first six pulses of the phase, the overshoot count,
  and by no later pulse; this holds for x and for y whatever the other axes do, so each of
  them stops on its own. (The z axis has no switch handling in the source.) The step bits
  are taken to be two different bits of the stepping mask that are neither direction bits
  nor in the polarity mask. By \<open>homing_cycle_port\<close> a pulse that holds the bit of an axis
  raises and lowers the line of that axis on the port.
\<close>

theorem homing_overshoot_is_six_pulses:
  assumes "X_STEP_BIT cfg < 8" and "Y_STEP_BIT cfg < 8"
    and "X_STEP_BIT cfg \<noteq> Y_STEP_BIT cfg"
    and "bit (STEPPING_MASK cfg) (X_STEP_BIT cfg)" and "bit (STEPPING_MASK cfg) (Y_STEP_BIT cfg)"
    and "\<not> bit (DIRECTION_MASK cfg) (X_STEP_BIT cfg)" and "\<not> bit (DIRECTION_MASK cfg) (Y_STEP_BIT cfg)"
    and "\<not> bit (INVERT_MASK cfg) (X_STEP_BIT cfg)" and "\<not> bit (INVERT_MASK cfg) (Y_STEP_BIT cfg)"
    and "7 \<le> length pins"
  shows "(x \<and> (\<forall>r \<in> set (take 7 pins). \<not> bit (read_limit_bits cfg rv r) (X1_LIMIT_BIT cfg)) \<longrightarrow>
            6 \<le> length (fst (homing_cycle cfg x y z rv us pins m)) \<and>
            (\<forall>i < length (fst (homing_cycle cfg x y z rv us pins m)).
               bit (pulse_bits (fst (homing_cycle cfg x y z rv us pins m) ! i)) (X_STEP_BIT cfg)
                 \<longleftrightarrow> i < 6)) \<and>
         (y \<and> (\<forall>r \<in> set (take 7 pins). \<not> bit (read_limit_bits cfg rv r) (Y1_LIMIT_BIT cfg)) \<longrightarrow>
            6 \<le> length (fst (homing_cycle cfg x y z rv us pins m)) \<and>
            (\<forall>i < length (fst (homing_cycle cfg x y z rv us pins m)).
               bit (pulse_bits (fst (homing_cycle cfg x y z rv us pins m) ! i)) (Y_STEP_BIT cfg)
                 \<longleftrightarrow> i < 6))"
proof (intro conjI impI)
  let ?h = "\<lparr>x_axis = x, y_axis = y, z_axis = z,
              homing_out_bits = homing_initial_bits cfg x y z rv,
              x_overshoot_count = 6, y_overshoot_count = 6\<rparr>"
  {
    assume a: "x \<and> (\<forall>r \<in> set (take 7 pins). \<not> bit (read_limit_bits cfg rv r) (X1_LIMIT_BIT cfg))"
    have "x_axis ?h" "bit (homing_out_bits ?h) (X_STEP_BIT cfg)"
      "\<forall>r \<in> set (take (Suc (unat (x_overshoot_count ?h))) pins).
         \<not> bit (read_limit_bits cfg rv r) (X1_LIMIT_BIT cfg)"
      using a homing_initial_bits_x[OF assms(1,6,8)] by simp_all
    from x_axis_overshoot[OF assms(3,4) this]
    show "6 \<le> length (fst (homing_cycle cfg x y z rv us pins m))"
      and "\<forall>i < length (fst (homing_cycle cfg x y z rv us pins m)).
               bit (pulse_bits (fst (homing_cycle cfg x y z rv us pins m) ! i)) (X_STEP_BIT cfg)
                 \<longleftrightarrow> i < 6"
      unfolding homing_cycle_pulses using assms(10) by simp_all
  }
  {
    assume a: "y \<and> (\<forall>r \<in> set (take 7 pins). \<not> bit (read_limit_bits cfg rv r) (Y1_LIMIT_BIT cfg))"
    have "y_axis ?h" "bit (homing_out_bits ?h) (Y_STEP_BIT cfg)"
      "\<forall>r \<in> set (take (Suc (unat (y_overshoot_count ?h))) pins).
         \<not> bit (read_limit_bits cfg rv r) (Y1_LIMIT_BIT cfg)"
      using a homing_initial_bits_y[OF assms(2,7,9)] by simp_all
    from y_axis_overshoot[OF assms(3)[symmetric] assms(5) this]
    show "6 \<le> length (fst (homing_cycle cfg x y z rv us pins m))"
      and "\<forall>i < length (fst (homing_cycle cfg x y z rv us pins m)).
               bit (pulse_bits (fst (homing_cycle cfg x y z rv us pins m) ! i)) (Y_STEP_BIT cfg)
                 \<longleftrightarrow> i < 6"
      unfolding homing_cycle_pulses using assms(10) by simp_all
  }
qed

theorem homing_overshoot_is_six_pulses_witness:
  "list_all (\<lambda>r. \<not> bit (read_limit_bits sample_config False r) (X1_LIMIT_BIT sample_config))
     (take 7 [2, 2, 2, 2, 2, 2, 2, 2, 2, 0, 0, 0, 0, 0, 0, 0]) \<and>
   map (\<lambda>p. bit (pulse_bits p) (X_STEP_BIT sample_config))
     (fst (homing_cycle sample_config True True False False 1000
             [2, 2, 2, 2, 2, 2, 2, 2, 2, 0, 0, 0, 0, 0, 0, 0] idle_machine)) =
     [True, True, True, True, True, True, False, False, False,
      False, False, False, False, False, False] \<and>
   map (\<lambda>p. bit (pulse_bits p) (Y_STEP_BIT sample_config))
     (fst (homing_cycle sample_config True True False False 1000
             [2, 2, 2, 2, 2, 2, 2, 2, 2, 0, 0, 0, 0, 0, 0, 0] idle_machine)) =
     [True, True, True, True, True, True, True, True, True,
      True, True, True, True, True, True]"
  using homing_overshoot_is_six_pulses
          [of sample_config "[2, 2, 2, 2, 2, 2, 2, 2, 2, 0, 0, 0, 0, 0, 0, 0]"
              True False True False 1000 idle_machine]
  by (simp add: sample_config_def homing_cycle_def homing_initial_bits_def check_limits_def
      read_limit_bits_def step_axes_def Let_def)

text \<open>
  Claim C7 says that an axis whose limit switch is already asserted when a homing phase
  begins still gets exactly the six overshoot pulses before it stops being stepped, and
  that each axis stops on its own. The source does not do so on an inverted step line.
  With the x step bit in the polarity mask, \<^verbatim>\<open>out_bits ^= INVERT_MASK\<close> (line 469) clears the
  x step bit that line 459 has set, and \<^verbatim>\<open>out_bits ^= (1<<X_STEP_BIT)\<close> (line 483), meant to
  take the axis out, sets it. In the approach phase below the x switch reads as triggered
  at every read and the y switch from the tenth read on; the x line rests high. None of
  the first six pulses holds the x step bit, and the port keeps the x line high through
  them; each of the nine pulses that follow, emitted until y has finished, holds the bit
  and takes the x line from high to low. The x axis gets no overshoot pulse and is stepped
  as long as the other axis runs. The interrupt handler treats the same configuration
  correctly: it writes the inverted pattern to the port (lines 312 and 238), and the reset
  handler returns the step lines to \<^verbatim>\<open>INVERT_MASK & STEPPING_MASK\<close> (line 197), the level
  at which \<^verbatim>\<open>stepper_init\<close> has put them (line 92).
\<close>

theorem homing_overshoot_lost_on_inverted_step_line:
  "bit (INVERT_MASK inverted_step_config) (X_STEP_BIT inverted_step_config) \<and>
   list_all (\<lambda>r. \<not> bit (read_limit_bits inverted_step_config False r)
                      (X1_LIMIT_BIT inverted_step_config))
     [2, 2, 2, 2, 2, 2, 2, 2, 2, 0, 0, 0, 0, 0, 0, 0] \<and>
   map (\<lambda>p. bit (pulse_bits p) (X_STEP_BIT inverted_step_config))
     (fst (approach_limit_switch inverted_step_config True True False
             [2, 2, 2, 2, 2, 2, 2, 2, 2, 0, 0, 0, 0, 0, 0, 0] inverted_idle_machine)) =
     [False, False, False, False, False, False,
      True, True, True, True, True, True, True, True, True] \<and>
   map (\<lambda>p. (bit (port_raised p) (X_STEP_BIT inverted_step_config),
             bit (port_toggled p) (X_STEP_BIT inverted_step_config)))
     (fst (approach_limit_switch inverted_step_config True True False
             [2, 2, 2, 2, 2, 2, 2, 2, 2, 0, 0, 0, 0, 0, 0, 0] inverted_idle_machine)) =
     [(True, True), (True, True), (True, True), (True, True), (True, True), (True, True),
      (True, False), (True, False), (True, False), (True, False), (True, False),
      (True, False), (True, False), (True, False), (True, False)]"
  by (simp add: approach_limit_switch_def homing_cycle_def homing_initial_bits_def
      check_limits_def read_limit_bits_def homing_pulse_def step_axes_def Let_def
      inverted_step_config_def inverted_idle_machine_def TIMER2_OVF_vect_def
      sample_config_def idle_machine_def)

lemma homing_loop_delays:
  "p \<in> set (fst (homing_loop cfg rv sd pins h m)) \<Longrightarrow>
     pulse_high_us p = CONFIG_PULSE_MICROSECONDS cfg \<and> pulse_low_us p = sd"
proof (induction pins arbitrary: h m)
  case Nil
  then show ?case by simp
next
  case (Cons pin pins)
  let ?h = "check_limits cfg rv pin h"
  show ?case
  proof (cases "x_axis ?h \<or> y_axis ?h \<or> z_axis ?h")
    case True
    from Cons.prems have
      "p = homing_pulse cfg sd (homing_out_bits ?h) m \<or>
       p \<in> set (fst (homing_loop cfg rv sd pins ?h (step_axes cfg (homing_out_bits ?h) m)))"
      unfolding homing_loop_Cons_active[OF True] by auto
    then show ?thesis using Cons.IH by auto
  next
    case False
    then show ?thesis using Cons.prems by (simp add: homing_loop_Cons_done)
  qed
qed

lemma step_axes_position [simp]:
  "stepper_position (step_axes cfg bits m) = stepper_position m"
  by (simp add: step_axes_def Let_def)

lemma homing_loop_position:
  "snd (homing_loop cfg rv sd pins h m) = Some (m', rest) \<Longrightarrow>
     stepper_position m' = stepper_position m"
proof (induction pins arbitrary: h m)
  case Nil
  then show ?case by simp
next
  case (Cons pin pins)
  let ?h = "check_limits cfg rv pin h"
  show ?case
  proof (cases "x_axis ?h \<or> y_axis ?h \<or> z_axis ?h")
    case True
    with Cons.prems have
      "snd (homing_loop cfg rv sd pins ?h (step_axes cfg (homing_out_bits ?h) m)) = Some (m', rest)"
      by (simp add: Let_def split: prod.splits)
    from Cons.IH[OF this] show ?thesis by simp
  next
    case False
    then show ?thesis using Cons.prems by (simp add: homing_loop_Cons_done)
  qed
qed

lemma homing_cycle_position:
  assumes "snd (homing_cycle cfg x y z rv us pins m) = Some (m', rest)"
  shows "stepper_position m' = clear_vector (stepper_position m)"
proof -
  let ?h = "\<lparr>x_axis = x, y_axis = y, z_axis = z,
              homing_out_bits = homing_initial_bits cfg x y z rv,
              x_overshoot_count = 6, y_overshoot_count = 6\<rparr>"
  let ?m = "m\<lparr>STEPPING_PORT :=
                 (STEPPING_PORT m AND NOT (DIRECTION_MASK cfg))
                   OR (homing_initial_bits cfg x y z rv AND DIRECTION_MASK cfg)\<rparr>"
  from assms obtain m1 where
    l: "snd (homing_loop cfg rv (us - CONFIG_PULSE_MICROSECONDS cfg) pins ?h ?m) = Some (m1, rest)"
    and e: "m' = m1\<lparr>stepper_position := clear_vector (stepper_position m1)\<rparr>"
    by (auto simp add: homing_cycle_def Let_def split: prod.splits option.splits)
  from homing_loop_position[OF l] e show ?thesis by simp
qed

lemma homing_cycle_periods:
  assumes "CONFIG_PULSE_MICROSECONDS cfg \<le> us"
    and "p \<in> set (fst (homing_cycle cfg x y z rv us pins m))"
  shows "pulse_period_us p = unat us"
proof -
  from assms(2) homing_loop_delays
  have "pulse_high_us p = CONFIG_PULSE_MICROSECONDS cfg"
    "pulse_low_us p = us - CONFIG_PULSE_MICROSECONDS cfg"
    unfolding homing_cycle_pulses by blast+
  then show ?thesis
    using assms(1) by (simp add: pulse_period_us_def unat_sub word_le_nat_alt)
qed

text \<open>
  Claim C6 says that the second phase of homing (leaving the switches) pulses faster than
  the first (approaching them). In the source the approach runs with 1000 microseconds per
  pulse and the leave with 10000: the second phase is the slower one, by a factor of ten.
\<close>

theorem leave_is_not_faster_counterexample:
  "pulse_period_us (fst (approach_limit_switch sample_config True True False [0] idle_machine) ! 0)
     = 1000 \<and>
   pulse_period_us (fst (leave_limit_switch sample_config True True False [0] idle_machine) ! 0)
     = 10000 \<and>
   \<not> pulse_period_us (fst (leave_limit_switch sample_config True True False [0] idle_machine) ! 0)
       < pulse_period_us
           (fst (approach_limit_switch sample_config True True False [0] idle_machine) ! 0)"
  by (simp add: approach_limit_switch_def leave_limit_switch_def homing_cycle_def
      homing_initial_bits_def check_limits_def read_limit_bits_def step_axes_def Let_def
      sample_config_def pulse_period_us_def)

text \<open>
  Claim C6, amended. Every pulse of the approach phase takes 1000 microseconds and every
  pulse of the leave phase takes 10000 microseconds (the pulse width plus the delay after
  it), so the leave phase steps at a tenth of the rate of the approach phase. The pulse
  width \<^verbatim>\<open>CONFIG_PULSE_MICROSECONDS\<close> is taken to be at most 1000.
\<close>

theorem leave_is_ten_times_slower:
  assumes "CONFIG_PULSE_MICROSECONDS cfg \<le> 1000"
  shows "(\<forall>p \<in> set (fst (approach_limit_switch cfg x y z pins m)). pulse_period_us p = 1000) \<and>
         (\<forall>p \<in> set (fst (leave_limit_switch cfg x' y' z' pins' m')). pulse_period_us p = 10000)"
proof -
  have "CONFIG_PULSE_MICROSECONDS cfg \<le> 10000"
    using assms by (simp add: word_le_nat_alt)
  with assms show ?thesis
    unfolding approach_limit_switch_def leave_limit_switch_def
    by (auto dest: homing_cycle_periods[rotated])
qed

theorem leave_is_ten_times_slower_witness:
  "CONFIG_PULSE_MICROSECONDS sample_config \<le> 1000 \<and>
   map pulse_period_us
     (fst (approach_limit_switch sample_config True True False [0, 0] idle_machine)) =
     [1000, 1000] \<and>
   map pulse_period_us
     (fst (leave_limit_switch sample_config True True False [0, 0] idle_machine)) =
     [10000, 10000]"
  using leave_is_ten_times_slower
          [of sample_config True True False "[0, 0]" idle_machine
              True True False "[0, 0]" idle_machine]
  by (simp add: approach_limit_switch_def leave_limit_switch_def homing_cycle_def
      homing_initial_bits_def check_limits_def read_limit_bits_def step_axes_def Let_def
      sample_config_def pulse_period_us_def)

text \<open>
  Claim C9 says that homing resets the position of the axes it touches only, so that
  \<^verbatim>\<open>stepper_homing_cycle\<close>, which homes x and y, leaves the z position as it was. In the
  source \<^verbatim>\<open>homing_cycle\<close> ends with \<^verbatim>\<open>clear_vector(stepper_position)\<close>, which clears the
  whole array: a z position of 30 is 0 afterwards.
\<close>

theorem homing_clears_z_counterexample:
  "stepper_position idle_machine ! Z_AXIS sample_config = 30 \<and>
   map_option (\<lambda>(ps1, ps2, m). stepper_position m ! Z_AXIS sample_config)
     (stepper_homing_cycle sample_config []
        [0, 0, 0, 0, 0, 0, 0, 3, 3, 3, 3, 3, 3, 3] idle_machine) = Some 0"
  by (simp add: stepper_homing_cycle_def approach_limit_switch_def leave_limit_switch_def
      homing_cycle_def homing_initial_bits_def check_limits_def read_limit_bits_def
      step_axes_def Let_def sample_config_def idle_machine_def clear_vector_def)

text \<open>
  Claim C9, amended. When \<^verbatim>\<open>stepper_homing_cycle\<close> returns, the absolute position is zero
  on all three axes, the z axis included, although only x and y have been homed.
\<close>

theorem homing_clears_all_axes:
  assumes "stepper_homing_cycle cfg sns pins m = Some (ps1, ps2, m')"
    and "length (stepper_position m) = 3"
  shows "stepper_position m' = [0, 0, 0]"
proof -
  from assms(1) obtain m1 m2 rest rest' where
    s: "stepper_synchronize cfg sns m = Some m1"
    and a: "snd (approach_limit_switch cfg True True False pins m1) = Some (m2, rest)"
    and l: "snd (leave_limit_switch cfg True True False rest m2) = Some (m', rest')"
    by (auto simp add: stepper_homing_cycle_def split: option.splits prod.splits)
  have "length (stepper_position m1) = 3"
    using stepper_synchronize_position_length[OF s] assms(2) by simp
  moreover have "stepper_position m2 = clear_vector (stepper_position m1)"
    using a homing_cycle_position unfolding approach_limit_switch_def by blast
  moreover have "stepper_position m' = clear_vector (stepper_position m2)"
    using l homing_cycle_position unfolding leave_limit_switch_def by blast
  ultimately show ?thesis
    by (simp add: clear_vector_def length_Suc_conv eval_nat_numeral) auto
qed

theorem homing_clears_all_axes_witness:
  "length (stepper_position idle_machine) = 3 \<and>
   map_option (\<lambda>(ps1, ps2, m). stepper_position m)
     (stepper_homing_cycle sample_config []
        [0, 0, 0, 0, 0, 0, 0, 3, 3, 3, 3, 3, 3, 3] idle_machine) = Some [0, 0, 0]"
proof -
  obtain ps1 ps2 m' where
    e: "stepper_homing_cycle sample_config []
          [0, 0, 0, 0, 0, 0, 0, 3, 3, 3, 3, 3, 3, 3] idle_machine = Some (ps1, ps2, m')"
    by (simp add: stepper_homing_cycle_def approach_limit_switch_def leave_limit_switch_def
        homing_cycle_def homing_initial_bits_def check_limits_def read_limit_bits_def
        step_axes_def Let_def sample_config_def idle_machine_def)
  have l: "length (stepper_position idle_machine) = 3" by (simp add: idle_machine_def)
  from homing_clears_all_axes[OF e l] e l show ?thesis by simp
qed


subsection \<open>The accumulators as integers\<close>

lemma sint_small: 
  assumes "uint (w :: 32 word) < 2147483648"
  shows "sint w = uint w"
proof -
  have "- (2 ^ 31) \<le> (0 :: int)" by simp
  also have "0 \<le> uint w" by simp
  finally have "- (2 ^ 31) \<le> uint w" .
  moreover have "uint w < 2 ^ 31" using assms by simp
  ultimately have "signed_take_bit 31 (uint w) = uint w"
    by (rule signed_take_bit_int_eq_self)
  then show ?thesis by (simp add: sint_uint)
qed

lemma sint_add_small:
  fixes c s :: "32 word"
  assumes "- 2147483648 \<le> sint c + uint s" "sint c + uint s < 2147483648"
    "uint s < 2147483648"
  shows "sint (c + s) = sint c + uint s"
proof -
  have "signed_take_bit 31 (sint c + uint s) = sint c + uint s"
    using assms(1,2) by (intro signed_take_bit_int_eq_self) simp_all
  then show ?thesis
    using sint_small[OF assms(3)] by (simp add: sint_word_add)
qed

lemma sint_sub_small:
  fixes c s :: "32 word"
  assumes "- 2147483648 \<le> sint c - uint s" "sint c - uint s < 2147483648"
    "uint s < 2147483648"
  shows "sint (c - s) = sint c - uint s"
proof -
  have "signed_take_bit 31 (sint c - uint s) = sint c - uint s"
    using assms(1,2) by (intro signed_take_bit_int_eq_self) simp_all
  then show ?thesis
    using sint_small[OF assms(3)] by (simp add: sint_word_diff)
qed

lemma uint_half: "uint (drop_bit 1 (n :: 32 word)) = uint n div 2"
proof -
  have "unat (drop_bit 1 n) = unat n div 2"
    unfolding unat_drop_bit_eq by (simp add: drop_bit_eq_div)
  then have "int (unat (drop_bit 1 n)) = int (unat n) div 2"
    by (simp only: zdiv_int) simp
  then show ?thesis by (simp only: uint_nat)
qed

lemma sint_neg_half:
  fixes n :: "32 word"
  shows "sint (- (drop_bit 1 n)) = - (uint n div 2)"
proof -
  have "uint n < 2 ^ 32" using uint_bounded[of n] by simp
  then have a: "uint (drop_bit 1 n) < 2147483648" unfolding uint_half by simp
  have "0 \<le> uint n" by simp
  then have "0 \<le> uint n div 2" by simp
  have "uint n div 2 < 2 ^ 31" using a unfolding uint_half by simp
  then have "- (2 ^ 31) \<le> - (uint n div 2)" by simp
  moreover have "- (uint n div 2) < 2 ^ 31"
  proof -
    have "- (uint n div 2) \<le> 0" using \<open>0 \<le> uint n div 2\<close> by linarith
    also have "(0 :: int) < 2 ^ 31" by simp
    finally show ?thesis .
  qed
  ultimately have "signed_take_bit 31 (- (uint n div 2)) = - (uint n div 2)"
    by (rule signed_take_bit_int_eq_self)
  then show ?thesis
    using sint_small[OF a] unfolding uint_half
    by (simp only: sint_word_minus) (simp add: uint_half)
qed

lemma dda_run:
  assumes "0 \<le> s" "s \<le> n"
  shows "- n < c \<Longrightarrow> c \<le> 0 \<Longrightarrow>
     length (dda_flags n s c j) = j \<and>
     int (length (filter (\<lambda>f. f) (dda_flags n s c j))) * n = c + int j * s - dda_counter n s c j \<and>
     - n < dda_counter n s c j \<and> dda_counter n s c j \<le> 0"
proof (induction j arbitrary: c)
  case 0
  then show ?case by simp
next
  case (Suc j)
  show ?case
  proof (cases "0 < c + s")
    case True
    have "- n < c + s - n" "c + s - n \<le> 0" using True Suc.prems assms by linarith+
    from Suc.IH[OF this] True show ?thesis by (simp add: algebra_simps)
  next
    case False
    have "- n < c + s" "c + s \<le> 0" using False Suc.prems assms by linarith+
    from Suc.IH[OF this] False show ?thesis by (simp add: algebra_simps)
  qed
qed

lemma small_multiple_is_zero:
  fixes d n :: int
  assumes "- n < d * n" "d * n < n"
  shows "d = 0"
proof (rule ccontr)
  assume "d \<noteq> 0"
  then consider "1 \<le> d" | "d \<le> - 1" by linarith
  then show False
  proof cases
    case 1
    have "0 < n" using assms by linarith
    then have "1 * n \<le> d * n" using 1 by (intro mult_right_mono) simp_all
    then have "n \<le> d * n" by simp
    then show False using assms by linarith
  next
    case 2
    have "0 < n" using assms by linarith
    then have "d * n \<le> (- 1) * n" using 2 by (intro mult_right_mono) simp_all
    then have "d * n \<le> - n" by simp
    then show False using assms by linarith
  qed
qed

lemma dda_full_cycle:
  assumes "0 \<le> s" "s \<le> n" "0 < n"
  shows "int (length (filter (\<lambda>f. f) (dda_flags n s (- (n div 2)) (nat n)))) = s"
    and "dda_counter n s (- (n div 2)) (nat n) = - (n div 2)"
proof -
  let ?c = "- (n div 2)"
  let ?k = "int (length (filter (\<lambda>f. f) (dda_flags n s ?c (nat n))))"
  let ?e = "dda_counter n s ?c (nat n)"
  have c: "- n < ?c" "?c \<le> 0" using assms(3) by linarith+
  from dda_run[OF assms(1,2) c, of "nat n"] assms(3)
  have r: "?k * n = ?c + n * s - ?e" "- n < ?e" "?e \<le> 0" by simp_all
  have "(?k - s) * n = ?c - ?e" using r(1) by (simp add: algebra_simps)
  moreover have "- n < ?c - ?e" "?c - ?e < n" using c r(2,3) by linarith+
  ultimately have z: "?k - s = 0"
    using small_multiple_is_zero[of n "?k - s"] by simp
  then show "?k = s" by simp
  with r(1) show "?e = ?c" by (simp add: algebra_simps)
qed

lemma dda_dominant:
  "- n < c \<Longrightarrow> dda_flags n n c j = replicate j True"
  by (induction j arbitrary: c) simp_all

subsection \<open>The accumulators as machine words\<close>

lemma next_counter_int:
  fixes c s :: u32
  assumes "uint (step_event_count b) < 2147483648" "uint s \<le> uint (step_event_count b)"
    and "- uint (step_event_count b) < sint c" "sint c \<le> 0"
  shows "sint (c + s) = sint c + uint s"
    and "sint (next_counter b s c) =
           (if 0 < sint c + uint s then sint c + uint s - uint (step_event_count b)
            else sint c + uint s)"
proof -
  have s: "uint s < 2147483648" "0 \<le> uint s" using assms(1,2) by simp_all
  show a: "sint (c + s) = sint c + uint s"
    using assms s by (intro sint_add_small) linarith+
  have "sint (c + s - step_event_count b) = sint (c + s) - uint (step_event_count b)"
    if "0 < sint c + uint s"
    using assms s that a by (intro sint_sub_small) linarith+
  then show "sint (next_counter b s c) =
           (if 0 < sint c + uint s then sint c + uint s - uint (step_event_count b)
            else sint c + uint s)"
    using a by (simp add: next_counter_def)
qed

lemma axis_chain_dda:
  assumes "uint (step_event_count b) < 2147483648" "uint s \<le> uint (step_event_count b)"
  shows "- uint (step_event_count b) < sint c \<Longrightarrow> sint c \<le> 0 \<Longrightarrow>
     axis_chain b s flag cnt c tr \<Longrightarrow>
     map flag tr = dda_flags (uint (step_event_count b)) (uint s) (sint c) (length tr) \<and>
     sint (last (c # map cnt tr)) =
       dda_counter (uint (step_event_count b)) (uint s) (sint c) (length tr)"
proof (induction tr arbitrary: c)
  case Nil
  then show ?case by simp
next
  case (Cons m ms)
  note n = next_counter_int[OF assms Cons.prems(1,2)]
  have m: "cnt m = next_counter b s c" "flag m = (0 < sint c + uint s)"
    "axis_chain b s flag cnt (next_counter b s c) ms"
    using Cons.prems(3) n(1) by auto
  have s: "0 \<le> uint s" by simp
  have r: "- uint (step_event_count b) < sint (next_counter b s c)"
    "sint (next_counter b s c) \<le> 0"
    unfolding n(2) using Cons.prems(1,2) assms(2)
    by (simp_all split: if_splits) (insert s, linarith+)
  from Cons.IH[OF r m(3)] show ?case
    using m(1,2) unfolding n(2) by (simp split: if_splits)
qed

lemma step_bits_of_pattern:
  assumes "step_bits_distinct cfg" "direction_bits_only cfg b"
    and "out_bits m XOR INVERT_MASK cfg =
          ((direction_bits b
             OR (if px then push_bit (X_STEP_BIT cfg) 1 else 0))
             OR (if py then push_bit (Y_STEP_BIT cfg) 1 else 0))
             OR (if pz then push_bit (Z_STEP_BIT cfg) 1 else 0)"
  shows "step_bit_set cfg (X_STEP_BIT cfg) m = px"
    and "step_bit_set cfg (Y_STEP_BIT cfg) m = py"
    and "step_bit_set cfg (Z_STEP_BIT cfg) m = pz"
  unfolding step_bit_set_def assms(3)
  using assms(1,2) unfolding step_bits_distinct_def direction_bits_only_def
  by (auto simp add: bit_simps)

lemma line_chain_axes:
  assumes "step_bits_distinct cfg" "direction_bits_only cfg b"
  shows "line_chain cfg b (cx, cy, cz, k, r, bb) tr \<Longrightarrow>
     axis_chain b (steps_x b) (step_bit_set cfg (X_STEP_BIT cfg)) counter_x cx tr \<and>
     axis_chain b (steps_y b) (step_bit_set cfg (Y_STEP_BIT cfg)) counter_y cy tr \<and>
     axis_chain b (steps_z b) (step_bit_set cfg (Z_STEP_BIT cfg)) counter_z cz tr"
proof (induction tr arbitrary: cx cy cz k r bb)
  case Nil
  then show ?case by simp
next
  case (Cons m ms)
  from Cons.prems have ale: "after_line_event cfg b (cx, cy, cz, k, r, bb) m"
    and ch: "line_chain cfg b (line_view m) ms" by simp_all
  from ale have c: "counter_x m = next_counter b (steps_x b) cx"
    "counter_y m = next_counter b (steps_y b) cy"
    "counter_z m = next_counter b (steps_z b) cz"
    and ob: "out_bits m XOR INVERT_MASK cfg =
          ((direction_bits b
             OR (if 0 < sint (cx + steps_x b) then push_bit (X_STEP_BIT cfg) 1 else 0))
             OR (if 0 < sint (cy + steps_y b) then push_bit (Y_STEP_BIT cfg) 1 else 0))
             OR (if 0 < sint (cz + steps_z b) then push_bit (Z_STEP_BIT cfg) 1 else 0)"
    unfolding after_line_event_def by auto
  note sb = step_bits_of_pattern[OF assms ob]
  from Cons.IH[OF ch[unfolded line_view_def]] show ?case
    using c sb by auto
qed

subsection \<open>The trace of a line block\<close>

lemma unat_succ_below:
  fixes k n :: u32
  assumes "unat k < unat n"
  shows "unat (k + 1) = unat k + 1"
proof -
  have "unat n < 2 ^ 32" using unsigned_less[of n] by simp
  with assms have "unat k + unat (1 :: u32) < 2 ^ LENGTH(32)" by simp
  then have "unat (k + 1) = unat k + unat (1 :: u32)" by (simp only: unat_add_lem)
  then show ?thesis by simp
qed

lemma succ_less_iff:
  fixes k n :: u32
  assumes "unat k < unat n"
  shows "k + 1 < n \<longleftrightarrow> unat k + 1 < unat n"
  by (simp add: word_less_nat_alt unat_succ_below[OF assms])

lemma line_trace_running:
  assumes "MINIMUM_STEPS_PER_MINUTE cfg \<noteq> 0" "type b = TYPE_LINE"
  shows "\<not> busy m \<Longrightarrow> \<not> stop_requested m \<Longrightarrow> current_block m = Some b \<Longrightarrow>
     unat (step_events_completed m) + j \<le> unat (step_event_count b) \<Longrightarrow>
     length (isr_trace cfg (replicate j all_clear) m) = j \<and>
     line_chain cfg b (line_view m) (isr_trace cfg (replicate j all_clear) m)"
proof (induction j arbitrary: m)
  case 0
  then show ?case by simp
next
  case (Suc j)
  from isr_line_running[OF assms Suc.prems(1,2,3)]
  obtain m' where m': "TIMER1_COMPA_vect cfg all_clear m = Inr m'"
    and ale: "after_line_event cfg b (line_view m) m'" by blast
  have tr: "isr_trace cfg (replicate (Suc j) all_clear) m =
            m' # isr_trace cfg (replicate j all_clear) m'"
    using m' by simp
  show ?case
  proof (cases j)
    case 0
    then show ?thesis unfolding tr using ale by simp
  next
    case (Suc j')
    have lt: "unat (step_events_completed m) < unat (step_event_count b)"
      "unat (step_events_completed m) + 1 < unat (step_event_count b)"
      using Suc.prems(4) Suc by simp_all
    from ale have a: "\<not> busy m'" "\<not> stop_requested m'"
      "step_events_completed m' = step_events_completed m + 1"
      "current_block m' =
         (if step_events_completed m + 1 < step_event_count b then Some b else None)"
      by (simp_all add: after_line_event_def line_view_def)
    have cb: "current_block m' = Some b"
      using a(4) lt by (simp add: succ_less_iff[OF lt(1)])
    have k: "unat (step_events_completed m') + j \<le> unat (step_event_count b)"
      using Suc.prems(4) by (simp add: a(3) unat_succ_below[OF lt(1)])
    from Suc.IH[OF a(1,2) cb k] show ?thesis unfolding tr using ale by simp
  qed
qed

lemma line_trace_start:
  assumes "MINIMUM_STEPS_PER_MINUTE cfg \<noteq> 0" "type b = TYPE_LINE"
    and "\<not> busy m" "\<not> stop_requested m" "current_block m = None" "block_buffer m = b # q"
    and "0 < j" "j \<le> unat (step_event_count b)"
  shows "length (isr_trace cfg (replicate j all_clear) m) = j \<and>
     line_chain cfg b
       (- (drop_bit 1 (step_event_count b)), - (drop_bit 1 (step_event_count b)),
        - (drop_bit 1 (step_event_count b)), 0, initial_rate b, b # q)
       (isr_trace cfg (replicate j all_clear) m)"
proof -
  let ?pre = "(- (drop_bit 1 (step_event_count b)), - (drop_bit 1 (step_event_count b)),
               - (drop_bit 1 (step_event_count b)), 0 :: u32, initial_rate b, b # q)"
  obtain j' where j: "j = Suc j'" using assms(7) by (cases j) simp_all
  from isr_line_start[OF assms(1-6)]
  obtain m' where m': "TIMER1_COMPA_vect cfg all_clear m = Inr m'"
    and ale: "after_line_event cfg b ?pre m'" by blast
  have tr: "isr_trace cfg (replicate j all_clear) m =
            m' # isr_trace cfg (replicate j' all_clear) m'"
    using m' j by simp
  show ?thesis
  proof (cases j')
    case 0
    then show ?thesis unfolding tr using ale j by simp
  next
    case (Suc j'')
    have n: "unat (0 :: u32) < unat (step_event_count b)"
      "unat (0 :: u32) + 1 < unat (step_event_count b)"
      using assms(8) j Suc by simp_all
    from ale have a: "\<not> busy m'" "\<not> stop_requested m'"
      "step_events_completed m' = 0 + 1"
      "current_block m' = (if 0 + 1 < step_event_count b then Some b else None)"
      by (simp_all add: after_line_event_def)
    have cb: "current_block m' = Some b"
      using a(4) n(2) by (simp only: succ_less_iff[OF n(1)]) simp
    have k: "unat (step_events_completed m') + j' \<le> unat (step_event_count b)"
      using assms(8) j by (simp add: a(3))
    from line_trace_running[OF assms(1,2) a(1,2) cb k] show ?thesis
      unfolding tr using ale j by simp
  qed
qed

lemma line_chain_progress:
  "line_chain cfg b (cx, cy, cz, k, r, bb) tr \<Longrightarrow>
   unat k + length tr \<le> unat (step_event_count b) \<Longrightarrow> i < length tr \<Longrightarrow>
     unat (step_events_completed (tr ! i)) = unat k + Suc i \<and>
     current_block (tr ! i) =
       (if unat k + Suc i < unat (step_event_count b) then Some b else None) \<and>
     block_buffer (tr ! i) =
       (if unat k + Suc i < unat (step_event_count b) then bb else tl bb)"
proof (induction tr arbitrary: cx cy cz k r bb i)
  case Nil
  then show ?case by simp
next
  case (Cons m ms)
  have lt: "unat k < unat (step_event_count b)" using Cons.prems(2) by simp
  from Cons.prems(1) have ale: "after_line_event cfg b (cx, cy, cz, k, r, bb) m"
    and ch0: "line_chain cfg b (line_view m) ms" by simp_all
  from ale have a:
    "step_events_completed m = k + 1"
    "current_block m = (if k + 1 < step_event_count b then Some b else None)"
    "block_buffer m = (if k + 1 < step_event_count b then bb else tl bb)"
    unfolding after_line_event_def by auto
  note ch = ch0[unfolded line_view_def]
  note u = unat_succ_below[OF lt]
  note s = succ_less_iff[OF lt]
  show ?case
  proof (cases i)
    case 0
    then show ?thesis using a u s by simp
  next
    case (Suc i')
    have i': "i' < length ms" using Cons.prems(3) Suc by simp
    have l: "unat (step_events_completed m) + length ms \<le> unat (step_event_count b)"
      using Cons.prems(2) by (simp add: a(1) u)
    have "unat k + 1 < unat (step_event_count b)" using Cons.prems(2) i' by simp
    then have bb: "block_buffer m = bb" using a(3) s by simp
    from Cons.IH[OF ch l i'] show ?thesis
      unfolding Suc using bb by (simp add: a(1) u)
  qed
qed


lemma signed_equal:
  fixes v w :: u32
  shows "sint v = sint w \<Longrightarrow> v = w"
  using word_eq_iff_signed[of v w] by blast

lemma count_flags:
  "length (filter flag tr) = length (filter (\<lambda>f. f) (map flag tr))"
  by (induction tr) simp_all

text \<open>
  The trace of a whole line block, from the invocation that fetches it: as many states as
  the block has step events, each axis following its accumulator from the midpoint value.
\<close>

lemma line_block_trace:
  assumes "MINIMUM_STEPS_PER_MINUTE cfg \<noteq> 0" "step_bits_distinct cfg"
    and "type b = TYPE_LINE" "direction_bits_only cfg b"
    and "0 < step_event_count b" "uint (step_event_count b) < 2147483648"
    and "steps_x b \<le> step_event_count b" "steps_y b \<le> step_event_count b"
        "steps_z b \<le> step_event_count b"
    and "\<not> busy m" "\<not> stop_requested m" "current_block m = None" "block_buffer m = b # q"
  defines "tr \<equiv> isr_trace cfg (replicate (unat (step_event_count b)) all_clear) m"
  defines "n \<equiv> uint (step_event_count b)"
  shows "length tr = unat (step_event_count b)"
    and "line_chain cfg b
           (- (drop_bit 1 (step_event_count b)), - (drop_bit 1 (step_event_count b)),
            - (drop_bit 1 (step_event_count b)), 0, initial_rate b, b # q) tr"
    and "map (step_bit_set cfg (X_STEP_BIT cfg)) tr =
           dda_flags n (uint (steps_x b)) (- (n div 2)) (length tr)"
    and "map (step_bit_set cfg (Y_STEP_BIT cfg)) tr =
           dda_flags n (uint (steps_y b)) (- (n div 2)) (length tr)"
    and "map (step_bit_set cfg (Z_STEP_BIT cfg)) tr =
           dda_flags n (uint (steps_z b)) (- (n div 2)) (length tr)"
    and "sint (counter_x (last tr)) = dda_counter n (uint (steps_x b)) (- (n div 2)) (length tr)"
    and "sint (counter_y (last tr)) = dda_counter n (uint (steps_y b)) (- (n div 2)) (length tr)"
    and "sint (counter_z (last tr)) = dda_counter n (uint (steps_z b)) (- (n div 2)) (length tr)"
proof -
  let ?c = "- (drop_bit 1 (step_event_count b))"
  have pos: "0 < unat (step_event_count b)" using assms(5) by (simp add: unat_gt_0)
  from line_trace_start[OF assms(1,3) assms(10-13) pos order_refl]
  show len: "length tr = unat (step_event_count b)"
    and ch: "line_chain cfg b (?c, ?c, ?c, 0, initial_rate b, b # q) tr"
    unfolding tr_def by simp_all
  have ne: "tr \<noteq> []" using len pos by auto
  have npos: "0 < n" unfolding n_def using assms(5) by (simp add: word_less_def)
  have c: "sint ?c = - (n div 2)" unfolding n_def by (rule sint_neg_half)
  have r: "- uint (step_event_count b) < sint ?c" "sint ?c \<le> 0"
    unfolding c using npos unfolding n_def by linarith+
  have s: "uint (steps_x b) \<le> uint (step_event_count b)"
    "uint (steps_y b) \<le> uint (step_event_count b)"
    "uint (steps_z b) \<le> uint (step_event_count b)"
    using assms(7,8,9) by (simp_all add: word_le_def)
  note ax = line_chain_axes[OF assms(2,4) ch]
  have l: "\<And>cnt. last (?c # map cnt tr) = cnt (last tr)"
    using ne by (simp add: last_map)
  from axis_chain_dda[OF assms(6) s(1) r conjunct1[OF ax]]
  show "map (step_bit_set cfg (X_STEP_BIT cfg)) tr =
           dda_flags n (uint (steps_x b)) (- (n div 2)) (length tr)"
    and "sint (counter_x (last tr)) = dda_counter n (uint (steps_x b)) (- (n div 2)) (length tr)"
    unfolding l c n_def by simp_all
  from axis_chain_dda[OF assms(6) s(2) r conjunct1[OF conjunct2[OF ax]]]
  show "map (step_bit_set cfg (Y_STEP_BIT cfg)) tr =
           dda_flags n (uint (steps_y b)) (- (n div 2)) (length tr)"
    and "sint (counter_y (last tr)) = dda_counter n (uint (steps_y b)) (- (n div 2)) (length tr)"
    unfolding l c n_def by simp_all
  from axis_chain_dda[OF assms(6) s(3) r conjunct2[OF conjunct2[OF ax]]]
  show "map (step_bit_set cfg (Z_STEP_BIT cfg)) tr =
           dda_flags n (uint (steps_z b)) (- (n div 2)) (length tr)"
    and "sint (counter_z (last tr)) = dda_counter n (uint (steps_z b)) (- (n div 2)) (length tr)"
    unfolding l c n_def by simp_all
qed

lemma axis_full_cycle:
  fixes s n :: u32
  assumes "0 < n" "s \<le> n" "length tr = unat n"
    and "map flag tr = dda_flags (uint n) (uint s) (- (uint n div 2)) (length tr)"
  shows "length (filter flag tr) = unat s"
    and "s = n \<Longrightarrow> list_all flag tr"
proof -
  have n: "0 < uint n" "uint s \<le> uint n" "0 \<le> uint s" "nat (uint n) = unat n"
  proof -
    show "0 < uint n" using assms(1) by (simp add: word_less_def)
    show "uint s \<le> uint n" using assms(2) by (simp add: word_le_def)
    show "0 \<le> uint s" by simp
    show "nat (uint n) = unat n" by (simp only: unat_eq_nat_uint)
  qed
  from dda_full_cycle(1)[OF n(3,2,1)]
  have "int (length (filter (\<lambda>f. f) (map flag tr))) = uint s"
    unfolding assms(4) assms(3) n(4) .
  then have "int (length (filter flag tr)) = uint s"
    by (simp only: count_flags[of flag tr, symmetric])
  then show "length (filter flag tr) = unat s"
    by (simp only: unat_eq_nat_uint)
  show "list_all flag tr" if "s = n"
  proof -
    have "- uint n < - (uint n div 2)" using n(1) by linarith
    from dda_dominant[OF this] that
    have "map flag tr = replicate (length tr) True" unfolding assms(4) by simp
    then have "\<forall>m \<in> set tr. flag m"
      by (metis in_set_replicate imageI set_map)
    then show ?thesis by (simp add: list_all_iff)
  qed
qed


text \<open>
  Claim C1. A line block is fetched and then traced by as many invocations of the handler
  as it has step events (sensors quiet, no stop pending): the block stays current up to
  the last of them, which releases it and takes it off the planner's buffer. Over these
  invocations the step bit of each axis is set exactly as often as the axis has steps, and
  an axis with as many steps as there are step events has its bit set every time.
  The block is a well-formed one: at least one step event, fewer than \<open>2 ^ 31\<close> of them
  (the accumulators are \<^verbatim>\<open>int32_t\<close>), no axis with more steps than step events, and
  direction bits that are no step bits.
\<close>

theorem line_block_step_counts:
  assumes "MINIMUM_STEPS_PER_MINUTE cfg \<noteq> 0" and "step_bits_distinct cfg"
    and "type b = TYPE_LINE" and "direction_bits_only cfg b"
    and "0 < step_event_count b" and "uint (step_event_count b) < 2147483648"
    and "steps_x b \<le> step_event_count b" and "steps_y b \<le> step_event_count b"
    and "steps_z b \<le> step_event_count b"
    and "\<not> busy m" and "\<not> stop_requested m"
    and "current_block m = None" and "block_buffer m = b # q"
  defines "tr \<equiv> isr_trace cfg (replicate (unat (step_event_count b)) all_clear) m"
  shows "length tr = unat (step_event_count b) \<and>
         (\<forall>i < length tr. current_block (tr ! i) = (if Suc i < length tr then Some b else None)) \<and>
         block_buffer (last tr) = q \<and>
         length (filter (step_bit_set cfg (X_STEP_BIT cfg)) tr) = unat (steps_x b) \<and>
         length (filter (step_bit_set cfg (Y_STEP_BIT cfg)) tr) = unat (steps_y b) \<and>
         length (filter (step_bit_set cfg (Z_STEP_BIT cfg)) tr) = unat (steps_z b) \<and>
         (steps_x b = step_event_count b \<longrightarrow> list_all (step_bit_set cfg (X_STEP_BIT cfg)) tr) \<and>
         (steps_y b = step_event_count b \<longrightarrow> list_all (step_bit_set cfg (Y_STEP_BIT cfg)) tr) \<and>
         (steps_z b = step_event_count b \<longrightarrow> list_all (step_bit_set cfg (Z_STEP_BIT cfg)) tr)"
proof -
  note t = line_block_trace[OF assms(1-13), folded tr_def]
  have pos: "0 < length tr" using t(1) assms(5) by (simp add: unat_gt_0)
  have p: "unat (0 :: u32) + length tr \<le> unat (step_event_count b)" using t(1) by simp
  have cb: "current_block (tr ! i) = (if Suc i < length tr then Some b else None)"
    if "i < length tr" for i
    using line_chain_progress[OF t(2) p that] t(1) by simp
  have "block_buffer (tr ! (length tr - 1)) = q"
    using line_chain_progress[OF t(2) p, of "length tr - 1"] pos t(1) by simp
  then have bb: "block_buffer (last tr) = q"
    using pos by (simp add: last_conv_nth)
  note x = axis_full_cycle[OF assms(5,7) t(1) t(3)]
  note y = axis_full_cycle[OF assms(5,8) t(1) t(4)]
  note z = axis_full_cycle[OF assms(5,9) t(1) t(5)]
  show ?thesis
    using t(1) cb bb x y z by blast
qed

text \<open>
  The example of the spec, a block with 4 steps in x, 6 in y and 6 step events: y steps
  at every event and x at four of them, which are the events 1, 3, 4 and 6.
\<close>

lemma dda_flags_sample: "dda_flags 6 4 (- 3) 6 = [True, False, True, True, False, True]"
  by (simp add: eval_nat_numeral)

lemma sample_line_pattern:
  "map (step_bit_set sample_config (X_STEP_BIT sample_config))
     (isr_trace sample_config (replicate 6 all_clear) queued_machine) =
     [True, False, True, True, False, True]"
proof -
  have u: "unat (step_event_count sample_line) = 6" "uint (step_event_count sample_line) = 6"
    "uint (steps_x sample_line) = 4"
    by (simp_all add: sample_line_def)
  have h: "MINIMUM_STEPS_PER_MINUTE sample_config \<noteq> 0" "step_bits_distinct sample_config"
    "type sample_line = TYPE_LINE" "direction_bits_only sample_config sample_line"
    "0 < step_event_count sample_line" "uint (step_event_count sample_line) < 2147483648"
    "steps_x sample_line \<le> step_event_count sample_line"
    "steps_y sample_line \<le> step_event_count sample_line"
    "steps_z sample_line \<le> step_event_count sample_line"
    "\<not> busy queued_machine" "\<not> stop_requested queued_machine"
    "current_block queued_machine = None" "block_buffer queued_machine = sample_line # []"
    by (simp_all add: sample_config_def sample_line_def queued_machine_def idle_machine_def
          stepper_wake_up_def step_bits_distinct_def direction_bits_only_def)
  note t = line_block_trace(1,3)[OF h]
  show ?thesis
    using t(2) unfolding t(1) unfolding u by (simp add: dda_flags_sample)
qed

theorem line_block_step_counts_witness:
  "length (isr_trace sample_config (replicate 6 all_clear) queued_machine) = 6 \<and>
   length (filter (step_bit_set sample_config (X_STEP_BIT sample_config))
             (isr_trace sample_config (replicate 6 all_clear) queued_machine)) = 4 \<and>
   length (filter (step_bit_set sample_config (Y_STEP_BIT sample_config))
             (isr_trace sample_config (replicate 6 all_clear) queued_machine)) = 6 \<and>
   list_all (step_bit_set sample_config (Y_STEP_BIT sample_config))
     (isr_trace sample_config (replicate 6 all_clear) queued_machine)"
proof -
  have u: "unat (step_event_count sample_line) = 6" "unat (steps_x sample_line) = 4"
    "unat (steps_y sample_line) = 6" "steps_y sample_line = step_event_count sample_line"
    by (simp_all add: sample_line_def)
  have "MINIMUM_STEPS_PER_MINUTE sample_config \<noteq> 0" "step_bits_distinct sample_config"
    "type sample_line = TYPE_LINE" "direction_bits_only sample_config sample_line"
    "0 < step_event_count sample_line" "uint (step_event_count sample_line) < 2147483648"
    "steps_x sample_line \<le> step_event_count sample_line"
    "steps_y sample_line \<le> step_event_count sample_line"
    "steps_z sample_line \<le> step_event_count sample_line"
    "\<not> busy queued_machine" "\<not> stop_requested queued_machine"
    "current_block queued_machine = None" "block_buffer queued_machine = sample_line # []"
    by (simp_all add: sample_config_def sample_line_def queued_machine_def idle_machine_def
          stepper_wake_up_def step_bits_distinct_def direction_bits_only_def)
  from line_block_step_counts[OF this] show ?thesis
    unfolding u by simp
qed

text \<open>
  Claim C8. When a line block has been traced to its end, each of the three error
  accumulators holds \<open>- (step_event_count >> 1)\<close> again, the value that the start of the
  block gave it; a block with the same counts that follows starts from the same values.
\<close>

theorem line_block_restores_accumulators:
  assumes "MINIMUM_STEPS_PER_MINUTE cfg \<noteq> 0" and "step_bits_distinct cfg"
    and "type b = TYPE_LINE" and "direction_bits_only cfg b"
    and "0 < step_event_count b" and "uint (step_event_count b) < 2147483648"
    and "steps_x b \<le> step_event_count b" and "steps_y b \<le> step_event_count b"
    and "steps_z b \<le> step_event_count b"
    and "\<not> busy m" and "\<not> stop_requested m"
    and "current_block m = None" and "block_buffer m = b # q"
  defines "tr \<equiv> isr_trace cfg (replicate (unat (step_event_count b)) all_clear) m"
  shows "length tr = unat (step_event_count b) \<and>
         current_block (last tr) = None \<and>
         counter_x (last tr) = - (drop_bit 1 (step_event_count b)) \<and>
         counter_y (last tr) = - (drop_bit 1 (step_event_count b)) \<and>
         counter_z (last tr) = - (drop_bit 1 (step_event_count b))"
proof -
  let ?n = "uint (step_event_count b)"
  note t = line_block_trace[OF assms(1-13), folded tr_def]
  have pos: "0 < length tr" using t(1) assms(5) by (simp add: unat_gt_0)
  have p: "unat (0 :: u32) + length tr \<le> unat (step_event_count b)" using t(1) by simp
  have "current_block (tr ! (length tr - 1)) = None"
    using line_chain_progress[OF t(2) p, of "length tr - 1"] pos t(1) by simp
  then have cb: "current_block (last tr) = None"
    using pos by (simp add: last_conv_nth)
  have n: "0 < ?n" "nat ?n = length tr"
  proof -
    show "0 < ?n" using assms(5) by (simp add: word_less_def)
    show "nat ?n = length tr" unfolding t(1) by (simp only: unat_eq_nat_uint)
  qed
  have s: "0 \<le> uint (steps_x b)" "0 \<le> uint (steps_y b)" "0 \<le> uint (steps_z b)"
    "uint (steps_x b) \<le> ?n" "uint (steps_y b) \<le> ?n" "uint (steps_z b) \<le> ?n"
    using assms(7,8,9) by (simp_all add: word_le_def)
  have c: "sint (- (drop_bit 1 (step_event_count b))) = - (?n div 2)" by (rule sint_neg_half)
  have "sint (counter_x (last tr)) = sint (- (drop_bit 1 (step_event_count b)))"
    unfolding c t(6) n(2)[symmetric] by (rule dda_full_cycle(2)[OF s(1) s(4) n(1)])
  moreover have "sint (counter_y (last tr)) = sint (- (drop_bit 1 (step_event_count b)))"
    unfolding c t(7) n(2)[symmetric] by (rule dda_full_cycle(2)[OF s(2) s(5) n(1)])
  moreover have "sint (counter_z (last tr)) = sint (- (drop_bit 1 (step_event_count b)))"
    unfolding c t(8) n(2)[symmetric] by (rule dda_full_cycle(2)[OF s(3) s(6) n(1)])
  ultimately show ?thesis using t(1) cb by (simp add: signed_equal)
qed

theorem line_block_restores_accumulators_witness:
  "counter_x (last (isr_trace sample_config (replicate 6 all_clear) queued_machine)) = - 3 \<and>
   counter_y (last (isr_trace sample_config (replicate 6 all_clear) queued_machine)) = - 3 \<and>
   counter_z (last (isr_trace sample_config (replicate 6 all_clear) queued_machine)) = - 3"
proof -
  have u: "unat (step_event_count sample_line) = 6"
    "- (drop_bit 1 (step_event_count sample_line)) = - 3"
    by (simp_all add: sample_line_def)
  have "MINIMUM_STEPS_PER_MINUTE sample_config \<noteq> 0" "step_bits_distinct sample_config"
    "type sample_line = TYPE_LINE" "direction_bits_only sample_config sample_line"
    "0 < step_event_count sample_line" "uint (step_event_count sample_line) < 2147483648"
    "steps_x sample_line \<le> step_event_count sample_line"
    "steps_y sample_line \<le> step_event_count sample_line"
    "steps_z sample_line \<le> step_event_count sample_line"
    "\<not> busy queued_machine" "\<not> stop_requested queued_machine"
    "current_block queued_machine = None" "block_buffer queued_machine = sample_line # []"
    by (simp_all add: sample_config_def sample_line_def queued_machine_def idle_machine_def
          stepper_wake_up_def step_bits_distinct_def direction_bits_only_def)
  from line_block_restores_accumulators[OF this] show ?thesis
    unfolding u by simp
qed


subsection \<open>The rate along a line block\<close>

lemma word_eq_unat: "(a :: u32) = b \<longleftrightarrow> unat a = unat b"
  by (rule word_eq_iff_unsigned)

lemma rate_step_succ:
  assumes "unat k < unat (step_event_count b)" "rate_step b (k + 1) r r'"
  shows "if \<not> unat k + 1 < unat (step_event_count b) then r' = r
         else if unat k + 1 < unat (accelerate_until b) then
           r' = r \<or> r' = (if nominal_rate b < r + rate_delta b then nominal_rate b
                           else r + rate_delta b)
         else if unat k + 1 = unat (decelerate_after b) then r' = r
         else if unat (decelerate_after b) \<le> unat k + 1 then
           r' = r \<or> r' = (if r - rate_delta b < final_rate b then final_rate b
                           else r - rate_delta b)
         else r' = nominal_rate b"
  using assms(2)
  unfolding rate_step_def word_less_nat_alt word_le_nat_alt word_eq_unat[of "k + 1"]
    unat_succ_below[OF assms(1)] .

lemma after_line_event_rate:
  assumes "after_line_event cfg b (cx, cy, cz, k, r, bb) m"
  shows "step_events_completed m = k + 1" and "rate_step b (k + 1) r (adjusted_rate m)"
  using assms unfolding after_line_event_def by auto

lemma clamp_bounds:
  fixes r d lim :: u32
  shows "(if lim < r + d then lim else r + d) \<le> lim"
    and "lim \<le> (if r - d < lim then lim else r - d)"
  by (simp_all add: not_less)

lemma chain_rate_accelerating:
  "line_chain cfg b (cx, cy, cz, k, r, bb) tr \<Longrightarrow>
   unat k + length tr \<le> unat (step_event_count b) \<Longrightarrow>
   (k < accelerate_until b \<longrightarrow> r \<le> nominal_rate b) \<Longrightarrow> i < length tr \<Longrightarrow>
   step_events_completed (tr ! i) < accelerate_until b \<longrightarrow>
     adjusted_rate (tr ! i) \<le> nominal_rate b"
proof (induction tr arbitrary: cx cy cz k r bb i)
  case Nil
  then show ?case by simp
next
  case (Cons m ms)
  have lt: "unat k < unat (step_event_count b)" using Cons.prems(2) by simp
  from Cons.prems(1) have ale: "after_line_event cfg b (cx, cy, cz, k, r, bb) m"
    and ch: "line_chain cfg b (line_view m) ms" by simp_all
  note e = after_line_event_rate[OF ale]
  note u = unat_succ_below[OF lt]
  note rs = rate_step_succ[OF lt e(2)]
  have here: "step_events_completed m < accelerate_until b \<longrightarrow>
                adjusted_rate m \<le> nominal_rate b"
  proof
    assume a: "step_events_completed m < accelerate_until b"
    then have a': "unat k + 1 < unat (accelerate_until b)"
      by (simp add: e(1) word_less_nat_alt u)
    then have "k < accelerate_until b" by (simp add: word_less_nat_alt)
    with Cons.prems(3) have r: "r \<le> nominal_rate b" by simp
    from rs a' r clamp_bounds(1)[of "nominal_rate b" r "rate_delta b"]
    show "adjusted_rate m \<le> nominal_rate b"
      by (auto split: if_splits)
  qed
  show ?case
  proof (cases i)
    case 0
    then show ?thesis using here by simp
  next
    case (Suc i')
    have i': "i' < length ms" using Cons.prems(4) Suc by simp
    have l: "unat (step_events_completed m) + length ms \<le> unat (step_event_count b)"
      using Cons.prems(2) by (simp add: e(1) u)
    from Cons.IH[OF ch[unfolded line_view_def] l here i'] show ?thesis
      unfolding Suc by simp
  qed
qed

lemma chain_rate_decelerating:
  assumes "accelerate_until b \<le> decelerate_after b"
  shows "line_chain cfg b (cx, cy, cz, k, r, bb) tr \<Longrightarrow>
   unat k + length tr \<le> unat (step_event_count b) \<Longrightarrow>
   decelerate_after b \<le> k \<Longrightarrow> final_rate b \<le> r \<Longrightarrow> i < length tr \<Longrightarrow>
   final_rate b \<le> adjusted_rate (tr ! i)"
proof (induction tr arbitrary: cx cy cz k r bb i)
  case Nil
  then show ?case by simp
next
  case (Cons m ms)
  have lt: "unat k < unat (step_event_count b)" using Cons.prems(2) by simp
  from Cons.prems(1) have ale: "after_line_event cfg b (cx, cy, cz, k, r, bb) m"
    and ch: "line_chain cfg b (line_view m) ms" by simp_all
  note e = after_line_event_rate[OF ale]
  note u = unat_succ_below[OF lt]
  note rs = rate_step_succ[OF lt e(2)]
  have d: "unat (accelerate_until b) \<le> unat (decelerate_after b)"
    "unat (decelerate_after b) \<le> unat k"
    using assms Cons.prems(3) by (simp_all add: word_le_nat_alt)
  have here: "final_rate b \<le> adjusted_rate m"
    using rs d Cons.prems(4) clamp_bounds(2)[of "final_rate b" r "rate_delta b"]
    by (auto split: if_splits)
  have d': "decelerate_after b \<le> step_events_completed m"
    using d(2) by (simp add: e(1) word_le_nat_alt u)
  show ?case
  proof (cases i)
    case 0
    then show ?thesis using here by simp
  next
    case (Suc i')
    have i': "i' < length ms" using Cons.prems(5) Suc by simp
    have l: "unat (step_events_completed m) + length ms \<le> unat (step_event_count b)"
      using Cons.prems(2) by (simp add: e(1) u)
    from Cons.IH[OF ch[unfolded line_view_def] l d' here i'] show ?thesis
      unfolding Suc by simp
  qed
qed

lemma chain_rate_stays_above:
  assumes "accelerate_until b \<le> decelerate_after b"
  shows "line_chain cfg b (cx, cy, cz, k, r, bb) tr \<Longrightarrow>
   unat k + length tr \<le> unat (step_event_count b) \<Longrightarrow>
   j \<le> i \<Longrightarrow> i < length tr \<Longrightarrow>
   decelerate_after b \<le> step_events_completed (tr ! j) \<Longrightarrow>
   final_rate b \<le> adjusted_rate (tr ! j) \<Longrightarrow>
   final_rate b \<le> adjusted_rate (tr ! i)"
proof (induction tr arbitrary: cx cy cz k r bb i j)
  case Nil
  then show ?case by simp
next
  case (Cons m ms)
  have lt: "unat k < unat (step_event_count b)" using Cons.prems(2) by simp
  from Cons.prems(1) have ale: "after_line_event cfg b (cx, cy, cz, k, r, bb) m"
    and ch: "line_chain cfg b (line_view m) ms" by simp_all
  note e = after_line_event_rate[OF ale]
  note u = unat_succ_below[OF lt]
  have l: "unat (step_events_completed m) + length ms \<le> unat (step_event_count b)"
    using Cons.prems(2) by (simp add: e(1) u)
  show ?case
  proof (cases i)
    case 0
    then show ?thesis using Cons.prems(3,6) by simp
  next
    case i: (Suc i')
    have i': "i' < length ms" using Cons.prems(4) i by simp
    show ?thesis
    proof (cases j)
      case 0
      from chain_rate_decelerating[OF assms ch[unfolded line_view_def] l _ _ i']
        Cons.prems(5,6) 0
      show ?thesis unfolding i by simp
    next
      case (Suc j')
      from Cons.IH[OF ch[unfolded line_view_def] l _ i', of j'] Cons.prems(3,5,6) i Suc
      show ?thesis by simp
    qed
  qed
qed


lemma chain_rate_after_cruise:
  assumes "unat (accelerate_until b) < unat (decelerate_after b)"
    and "1 < unat (decelerate_after b)"
    and "final_rate b \<le> nominal_rate b"
  shows "line_chain cfg b (cx, cy, cz, k, r, bb) tr \<Longrightarrow>
   unat k + length tr \<le> unat (step_event_count b) \<Longrightarrow>
   (unat k < unat (step_event_count b) \<longrightarrow>
      (unat (accelerate_until b) \<le> unat k \<and> 1 \<le> unat k \<and> unat k \<le> unat (decelerate_after b)
         \<longrightarrow> r = nominal_rate b) \<and>
      (unat (decelerate_after b) \<le> unat k \<longrightarrow> final_rate b \<le> r)) \<Longrightarrow>
   i < length tr \<Longrightarrow>
   unat (step_events_completed (tr ! i)) < unat (step_event_count b) \<Longrightarrow>
   unat (decelerate_after b) \<le> unat (step_events_completed (tr ! i)) \<Longrightarrow>
   final_rate b \<le> adjusted_rate (tr ! i)"
proof (induction tr arbitrary: cx cy cz k r bb i)
  case Nil
  then show ?case by simp
next
  case (Cons m ms)
  have lt: "unat k < unat (step_event_count b)" using Cons.prems(2) by simp
  from Cons.prems(1) have ale: "after_line_event cfg b (cx, cy, cz, k, r, bb) m"
    and ch: "line_chain cfg b (line_view m) ms" by simp_all
  note e = after_line_event_rate[OF ale]
  note u = unat_succ_below[OF lt]
  note rs = rate_step_succ[OF lt e(2)]
  have s: "unat (step_events_completed m) = unat k + 1" by (simp add: e(1) u)
  from Cons.prems(3) lt have inv:
    "unat (accelerate_until b) \<le> unat k \<and> 1 \<le> unat k \<and> unat k \<le> unat (decelerate_after b)
       \<longrightarrow> r = nominal_rate b"
    "unat (decelerate_after b) \<le> unat k \<longrightarrow> final_rate b \<le> r"
    by simp_all
  have here: "unat (step_events_completed m) < unat (step_event_count b) \<longrightarrow>
      (unat (accelerate_until b) \<le> unat (step_events_completed m) \<and>
       1 \<le> unat (step_events_completed m) \<and>
       unat (step_events_completed m) \<le> unat (decelerate_after b)
         \<longrightarrow> adjusted_rate m = nominal_rate b) \<and>
      (unat (decelerate_after b) \<le> unat (step_events_completed m)
         \<longrightarrow> final_rate b \<le> adjusted_rate m)"
  proof (intro impI conjI)
    assume n: "unat (step_events_completed m) < unat (step_event_count b)"
    {
      assume c: "unat (accelerate_until b) \<le> unat (step_events_completed m) \<and>
                 1 \<le> unat (step_events_completed m) \<and>
                 unat (step_events_completed m) \<le> unat (decelerate_after b)"
      show "adjusted_rate m = nominal_rate b"
      proof (cases "unat k + 1 = unat (decelerate_after b)")
        case True
        then have "r = nominal_rate b" using inv(1) assms(1,2) by simp
        moreover have "adjusted_rate m = r" using rs n c True unfolding s by simp
        ultimately show ?thesis by simp
      next
        case False
        then show ?thesis using rs n c unfolding s by (simp split: if_splits)
      qed
    }
    {
      assume c: "unat (decelerate_after b) \<le> unat (step_events_completed m)"
      show "final_rate b \<le> adjusted_rate m"
      proof (cases "unat k + 1 = unat (decelerate_after b)")
        case True
        then have "r = nominal_rate b" using inv(1) assms(1,2) by simp
        moreover have "adjusted_rate m = r" using rs n c True assms(1) unfolding s by simp
        ultimately show ?thesis using assms(3) by simp
      next
        case False
        then have "unat (decelerate_after b) \<le> unat k" using c unfolding s by simp
        with inv(2) have "final_rate b \<le> r" by simp
        then show ?thesis
          using rs n c False assms(1) clamp_bounds(2)[of "final_rate b" r "rate_delta b"]
          unfolding s by (auto split: if_splits)
      qed
    }
  qed
  show ?case
  proof (cases i)
    case 0
    then show ?thesis using here Cons.prems(5,6) by simp
  next
    case (Suc i')
    have i': "i' < length ms" using Cons.prems(4) Suc by simp
    have l: "unat (step_events_completed m) + length ms \<le> unat (step_event_count b)"
      using Cons.prems(2) by (simp add: s)
    from Cons.IH[OF ch[unfolded line_view_def] l here i'] Cons.prems(5,6) show ?thesis
      unfolding Suc by simp
  qed
qed


text \<open>
  Claim C2 says that during a line block the rate never exceeds the nominal rate while
  accelerating and is never below the final rate while decelerating
  (\<open>step_events_completed \<ge> decelerate_after\<close>), given only \<open>initial_rate \<le> nominal_rate\<close>
  and \<open>final_rate \<le> nominal_rate\<close>. The second half fails for a block that reaches its
  deceleration phase with a rate below the final rate: the block \<open>late_rise_line\<close> starts
  at 2000, has the final rate 5000 and begins to decelerate at its first step event.
  After the first invocation it is current, \<open>step_events_completed = decelerate_after = 1\<close>,
  and the rate is still 2000.
\<close>

theorem rate_below_final_counterexample:
  "initial_rate late_rise_line \<le> nominal_rate late_rise_line \<and>
   final_rate late_rise_line \<le> nominal_rate late_rise_line \<and>
   0 < rate_delta late_rise_line \<and>
   length (isr_trace sample_config [all_clear] late_rise_machine) = 1 \<and>
   current_block (isr_trace sample_config [all_clear] late_rise_machine ! 0)
     = Some late_rise_line \<and>
   decelerate_after late_rise_line
     \<le> step_events_completed (isr_trace sample_config [all_clear] late_rise_machine ! 0) \<and>
   adjusted_rate (isr_trace sample_config [all_clear] late_rise_machine ! 0)
     < final_rate late_rise_line"
proof -
  have h: "MINIMUM_STEPS_PER_MINUTE sample_config \<noteq> 0" "type late_rise_line = TYPE_LINE"
    "\<not> busy late_rise_machine" "\<not> stop_requested late_rise_machine"
    "current_block late_rise_machine = None"
    "block_buffer late_rise_machine = late_rise_line # []"
    by (simp_all add: sample_config_def late_rise_line_def late_rise_machine_def
        idle_machine_def stepper_wake_up_def)
  from isr_line_start[OF h]
  obtain m' where m': "TIMER1_COMPA_vect sample_config all_clear late_rise_machine = Inr m'"
    and ale: "after_line_event sample_config late_rise_line
       (- (drop_bit 1 (step_event_count late_rise_line)),
        - (drop_bit 1 (step_event_count late_rise_line)),
        - (drop_bit 1 (step_event_count late_rise_line)), 0,
        initial_rate late_rise_line, [late_rise_line]) m'"
    by blast
  have tr: "isr_trace sample_config [all_clear] late_rise_machine = [m']"
    using m' by simp
  from ale have "current_block m' = Some late_rise_line" "step_events_completed m' = 1"
    "adjusted_rate m' = 2000"
    unfolding after_line_event_def rate_step_def by (simp_all add: late_rise_line_def)
  then show ?thesis
    unfolding tr by (simp add: late_rise_line_def)
qed

text \<open>
  Claim C2, amended. During a line block (sensors quiet, no stop) the rate is at most the
  nominal rate at every point of the acceleration phase. In the deceleration phase the
  rate, once it is at or above the final rate, stays at or above it to the end of the
  block; and a block with at least one cruise event (\<open>accelerate_until < decelerate_after\<close>
  and \<open>1 < decelerate_after\<close>) is at or above the final rate throughout its deceleration
  phase. The block satisfies \<open>initial_rate \<le> nominal_rate\<close>, \<open>final_rate \<le> nominal_rate\<close>
  and \<open>accelerate_until \<le> decelerate_after\<close>; \<open>rate_delta\<close> is arbitrary.
  The \<open>i\<close>-th state of the trace is the one after \<open>i + 1\<close> step events.
\<close>

theorem line_block_rate_bounds:
  assumes "MINIMUM_STEPS_PER_MINUTE cfg \<noteq> 0" and "type b = TYPE_LINE"
    and "0 < step_event_count b"
    and "initial_rate b \<le> nominal_rate b" and "final_rate b \<le> nominal_rate b"
    and "accelerate_until b \<le> decelerate_after b"
    and "\<not> busy m" and "\<not> stop_requested m"
    and "current_block m = None" and "block_buffer m = b # q"
  defines "tr \<equiv> isr_trace cfg (replicate (unat (step_event_count b)) all_clear) m"
  shows "length tr = unat (step_event_count b) \<and>
     (\<forall>i < length tr.
        unat (step_events_completed (tr ! i)) = Suc i \<and>
        current_block (tr ! i) = (if Suc i < length tr then Some b else None)) \<and>
     (\<forall>i < length tr.
        step_events_completed (tr ! i) < accelerate_until b \<longrightarrow>
          adjusted_rate (tr ! i) \<le> nominal_rate b) \<and>
     (\<forall>i < length tr. \<forall>j \<le> i.
        decelerate_after b \<le> step_events_completed (tr ! j) \<and>
        final_rate b \<le> adjusted_rate (tr ! j) \<longrightarrow>
          final_rate b \<le> adjusted_rate (tr ! i)) \<and>
     (accelerate_until b < decelerate_after b \<and> 1 < decelerate_after b \<longrightarrow>
        (\<forall>i < length tr.
           current_block (tr ! i) = Some b \<and>
           decelerate_after b \<le> step_events_completed (tr ! i) \<longrightarrow>
             final_rate b \<le> adjusted_rate (tr ! i)))"
proof -
  let ?c = "- (drop_bit 1 (step_event_count b))"
  have pos: "0 < unat (step_event_count b)" using assms(3) by (simp add: unat_gt_0)
  from line_trace_start[OF assms(1,2) assms(7-10) pos order_refl]
  have len: "length tr = unat (step_event_count b)"
    and ch: "line_chain cfg b (?c, ?c, ?c, 0, initial_rate b, b # q) tr"
    unfolding tr_def by simp_all
  have p: "unat (0 :: u32) + length tr \<le> unat (step_event_count b)" using len by simp
  have prog: "unat (step_events_completed (tr ! i)) = Suc i \<and>
        current_block (tr ! i) = (if Suc i < length tr then Some b else None)"
    if "i < length tr" for i
    using line_chain_progress[OF ch p that] len by simp
  have acc: "step_events_completed (tr ! i) < accelerate_until b \<longrightarrow>
          adjusted_rate (tr ! i) \<le> nominal_rate b"
    if "i < length tr" for i
    using chain_rate_accelerating[OF ch p _ that] assms(4) by simp
  have dec: "final_rate b \<le> adjusted_rate (tr ! i)"
    if "i < length tr" "j \<le> i" "decelerate_after b \<le> step_events_completed (tr ! j)"
      "final_rate b \<le> adjusted_rate (tr ! j)" for i j
    using chain_rate_stays_above[OF assms(6) ch p that(2,1,3,4)] .
  have cru: "final_rate b \<le> adjusted_rate (tr ! i)"
    if c: "accelerate_until b < decelerate_after b" "1 < decelerate_after b"
      and i: "i < length tr" "current_block (tr ! i) = Some b"
        "decelerate_after b \<le> step_events_completed (tr ! i)" for i
  proof -
    have c': "unat (accelerate_until b) < unat (decelerate_after b)"
      "1 < unat (decelerate_after b)"
      using c by (simp_all add: word_less_nat_alt)
    have "Suc i < length tr" using prog[OF i(1)] i(2) by (simp split: if_splits)
    then have n: "unat (step_events_completed (tr ! i)) < unat (step_event_count b)"
      using prog[OF i(1)] len by simp
    have d: "unat (decelerate_after b) \<le> unat (step_events_completed (tr ! i))"
      using i(3) by (simp add: word_le_nat_alt)
    show ?thesis
      using chain_rate_after_cruise[OF c' assms(5) ch p _ i(1) n d] c'(2) by simp
  qed
  show ?thesis
    using len prog acc dec cru by blast
qed

theorem line_block_rate_bounds_witness:
  "adjusted_rate (isr_trace sample_config (replicate 6 all_clear) queued_machine ! 0)
     \<le> nominal_rate sample_line \<and>
   final_rate sample_line
     \<le> adjusted_rate (isr_trace sample_config (replicate 6 all_clear) queued_machine ! 3) \<and>
   final_rate sample_line
     \<le> adjusted_rate (isr_trace sample_config (replicate 6 all_clear) queued_machine ! 4)"
proof -
  let ?tr = "isr_trace sample_config (replicate 6 all_clear) queued_machine"
  have u: "unat (step_event_count sample_line) = 6" by (simp add: sample_line_def)
  have "MINIMUM_STEPS_PER_MINUTE sample_config \<noteq> 0" "type sample_line = TYPE_LINE"
    "0 < step_event_count sample_line"
    "initial_rate sample_line \<le> nominal_rate sample_line"
    "final_rate sample_line \<le> nominal_rate sample_line"
    "accelerate_until sample_line \<le> decelerate_after sample_line"
    "\<not> busy queued_machine" "\<not> stop_requested queued_machine"
    "current_block queued_machine = None" "block_buffer queued_machine = sample_line # []"
    by (simp_all add: sample_config_def sample_line_def queued_machine_def idle_machine_def
          stepper_wake_up_def)
  note t = line_block_rate_bounds[OF this, unfolded u]
  from t have len: "length ?tr = 6" by blast
  from t len have s: "unat (step_events_completed (?tr ! 0)) = 1"
    "unat (step_events_completed (?tr ! 3)) = 4" "unat (step_events_completed (?tr ! 4)) = 5"
    "current_block (?tr ! 3) = Some sample_line" "current_block (?tr ! 4) = Some sample_line"
    by simp_all
  have a: "step_events_completed (?tr ! 0) < accelerate_until sample_line"
    "decelerate_after sample_line \<le> step_events_completed (?tr ! 3)"
    "decelerate_after sample_line \<le> step_events_completed (?tr ! 4)"
    "accelerate_until sample_line < decelerate_after sample_line"
    "1 < decelerate_after sample_line"
    using s(1,2,3) by (simp_all add: word_less_nat_alt word_le_nat_alt sample_line_def)
  from t len a s(4,5) show ?thesis by simp
qed


end
